theory Spec2Isabelle
  imports Complex_Main "HOL-Library.Word" "HOL-Library.Multiset"
begin

section \<open>Host reference bulk executors (testing/executor/executor_traits/executors.hpp)\<close>

text \<open>
  The user function \<open>f\<close> of a bulk call receives the agent index and, by reference, the
  result object and the shared parameter; it is modelled as a state transformer on the
  pair \<open>(result, shared_parm)\<close>.  Every call of a factory and every invocation of
  \<open>f\<close> is recorded as an event, so that "how often" and "in which order" are
  properties of the event list.  A \<open>std::future\<close> is modelled by what it delivers;
  \<open>Ready first last\<close> records that the task working on \<open>[first, last)\<close> has
  returned, which is the moment its future becomes ready.

  A \<open>size_t\<close> count is a natural number below \<open>2^64\<close>.  The loop counter of the
  synchronous executors cannot wrap (\<open>i < n\<close> before every \<open>++i\<close>); the one sum the
  continuation executor forms, \<open>last + first\<close>, is reduced modulo \<open>2^64\<close> as the
  machine does.
\<close>

datatype event = ResultFactory nat | SharedFactory nat | Invoke nat | Ready nat nat

type_synonym ('r, 's) agent_function = "nat \<Rightarrow> 'r \<times> 's \<Rightarrow> 'r \<times> 's"

text \<open>One invocation \<open>f(i, result, shared_parm)\<close>.\<close>

definition invoke ::
  "('r, 's) agent_function \<Rightarrow> nat \<Rightarrow> event list \<times> 'r \<times> 's \<Rightarrow> event list \<times> 'r \<times> 's" where
  "invoke f i st = (case st of (trace, refs) \<Rightarrow> (trace @ [Invoke i], f i refs))"

text \<open>\<^verbatim>\<open>for(size_t i = 0; i < n; ++i) f(i, result, shared_parm);\<close>\<close>

function for_loop ::
  "('r, 's) agent_function \<Rightarrow> nat \<Rightarrow> nat \<Rightarrow> event list \<times> 'r \<times> 's \<Rightarrow> event list \<times> 'r \<times> 's" where
  "for_loop f i n st = (if i < n then for_loop f (Suc i) n (invoke f i st) else st)"
  by pat_completeness auto
termination
  by (relation "measure (\<lambda>(f, i, n, st). n - i)") auto

declare for_loop.simps [simp del]

text \<open>\<open>bulk_synchronous_executor::bulk_execute\<close>: the events of the call and the returned result.\<close>

definition bulk_execute ::
  "('r, 's) agent_function \<Rightarrow> nat \<Rightarrow> (nat \<Rightarrow> 'r) \<Rightarrow> (nat \<Rightarrow> 's) \<Rightarrow> event list \<times> 'r" where
  "bulk_execute f n result_factory shared_factory =
     (let result = result_factory n;
          shared_parm = shared_factory n;
          (trace, result', shared_parm') =
             for_loop f 0 n ([ResultFactory n, SharedFactory n], result, shared_parm)
      in (trace, result'))"

text \<open>
  \<open>bulk_asynchronous_executor::bulk_async_execute\<close>: one background task runs the same
  body; the value is what the returned future delivers.
\<close>

definition bulk_async_execute ::
  "('r, 's) agent_function \<Rightarrow> nat \<Rightarrow> (nat \<Rightarrow> 'r) \<Rightarrow> (nat \<Rightarrow> 's) \<Rightarrow> event list \<times> 'r" where
  "bulk_async_execute f n result_factory shared_factory =
     (let result = result_factory n;
          shared_parm = shared_factory n;
          (trace, result', shared_parm') =
             for_loop f 0 n ([ResultFactory n, SharedFactory n], result, shared_parm)
      in (trace, result'))"

text \<open>The indices on which \<open>f\<close> was invoked, in the order of invocation.\<close>

fun invoked :: "event list \<Rightarrow> nat list" where
  "invoked [] = []"
| "invoked (Invoke i # es) = i # invoked es"
| "invoked (e # es) = invoked es"

text \<open>
  The effect of the invocations of an event list on the objects that \<open>f\<close> receives by
  reference, each invocation taken as one indivisible step.
\<close>

fun replay :: "(nat \<Rightarrow> 'st \<Rightarrow> 'st) \<Rightarrow> event list \<Rightarrow> 'st \<Rightarrow> 'st" where
  "replay f [] refs = refs"
| "replay f (Invoke i # es) refs = replay f es (f i refs)"
| "replay f (e # es) refs = replay f es refs"

text \<open>The identity-style test function \<open>f(i, result) = (result[i] = i)\<close>.\<close>

definition identity_f :: "(nat list, 's) agent_function" where
  "identity_f i refs = (case refs of (result, shared_parm) \<Rightarrow> (result[i := i], shared_parm))"

subsection \<open>The continuation executor\<close>

text \<open>
  A task started with \<open>std::launch::async\<close> runs concurrently with the task that
  started it.  A task body of the shape "start left; start right; own work; wait for left;
  wait for right" can therefore produce every interleaving of a run of the left task, a
  run of the right task and its own events.  \<open>agency::detail::make_ready_future()\<close>
  contributes no event: it is the singleton set holding the empty run.

  The code does not synchronize the invocations of \<open>f\<close>, which all work on the same
  result and shared parameter, captured by reference.  A run is a sequence of whole
  invocations: the model describes the executor for functions whose invocations are
  atomic with respect to one another (they touch disjoint parts of the objects, or
  serialize themselves).  For other functions the code has a data race and the model says
  nothing.
\<close>

definition interleaved :: "'a list set \<Rightarrow> 'a list set \<Rightarrow> 'a list \<Rightarrow> 'a list set" where
  "interleaved left right own = (\<Union>l\<in>left. \<Union>r\<in>right. \<Union>lr\<in>shuffles l r. shuffles lr own)"

text \<open>
  \<open>bulk_continuation_executor::async(f, first, last)\<close>: \<open>async first lst run\<close> holds when
  \<open>run\<close> is a possible sequence of events of the task and of all the tasks below it, up to
  the moment its future becomes ready (\<open>lst\<close> stands for the source's \<open>last\<close>).  The
  midpoint is \<open>size_t mid = (last + first) / 2\<close>, the sum taken modulo \<open>2^64\<close>;
  \<open>mid + 1\<close> cannot wrap, since \<open>mid < 2^63\<close>.  A task whose children never finish has
  no run: it waits for ever.
\<close>

inductive async :: "nat \<Rightarrow> nat \<Rightarrow> event list \<Rightarrow> bool" where
  "mid = ((lst + first) mod 2 ^ 64) div 2 \<Longrightarrow>
   (first < mid \<and> async first mid left) \<or> (mid \<le> first \<and> left = []) \<Longrightarrow>
   (mid + 1 < lst \<and> async (mid + 1) lst right) \<or> (lst \<le> mid + 1 \<and> right = []) \<Longrightarrow>
   both \<in> shuffles left right \<Longrightarrow>
   body \<in> shuffles both [Invoke mid] \<Longrightarrow>
   async first lst (body @ [Ready first lst])"

text \<open>
  \<open>bulk_then_execute_impl\<close>, the overload for a predecessor future without a value.  The
  predecessor is satisfied; the value is the set of possible outcomes of the returned
  future: the events up to its readiness and the result it delivers.
\<close>

definition bulk_then_execute_impl_void ::
  "('r, 's) agent_function \<Rightarrow> nat \<Rightarrow> (nat \<Rightarrow> 'r) \<Rightarrow> (nat \<Rightarrow> 's) \<Rightarrow> (event list \<times> 'r) set" where
  "bulk_then_execute_impl_void f n result_factory shared_factory =
     (if n > 0 then
        (let result = result_factory n;
             shared_parameter = shared_factory n;
             mid = n div 2;
             left = (if 0 < mid then {run. async 0 mid run} else {[]});
             right = (if mid + 1 < n then {run. async (mid + 1) n run} else {[]})
         in (\<lambda>run. ([ResultFactory n, SharedFactory n] @ run @ [Ready 0 n],
                     fst (replay f run (result, shared_parameter))))
              ` interleaved left right [Invoke mid])
      else {([ResultFactory n, Ready 0 n], result_factory n)})"

text \<open>
  \<open>bulk_then_execute_impl\<close>, the overload for a predecessor future with a value: \<open>f\<close> is
  invoked as \<open>f(idx, predecessor, result, shared_parameter)\<close>, all three objects by
  reference.
\<close>

definition bulk_then_execute_impl ::
  "(nat \<Rightarrow> 'p \<times> 'r \<times> 's \<Rightarrow> 'p \<times> 'r \<times> 's) \<Rightarrow> nat \<Rightarrow> 'p \<Rightarrow> (nat \<Rightarrow> 'r) \<Rightarrow> (nat \<Rightarrow> 's)
     \<Rightarrow> (event list \<times> 'r) set" where
  "bulk_then_execute_impl f n predecessor result_factory shared_factory =
     (if n > 0 then
        (let result = result_factory n;
             shared_parameter = shared_factory n;
             mid = n div 2;
             left = (if 0 < mid then {run. async 0 mid run} else {[]});
             right = (if mid + 1 < n then {run. async (mid + 1) n run} else {[]})
         in (\<lambda>run. ([ResultFactory n, SharedFactory n] @ run @ [Ready 0 n],
                     fst (snd (replay f run (predecessor, result, shared_parameter)))))
              ` interleaved left right [Invoke mid])
      else {([ResultFactory n, Ready 0 n], result_factory n)})"

definition bulk_then_execute ::
  "(nat \<Rightarrow> 'p \<times> 'r \<times> 's \<Rightarrow> 'p \<times> 'r \<times> 's) \<Rightarrow> nat \<Rightarrow> 'p \<Rightarrow> (nat \<Rightarrow> 'r) \<Rightarrow> (nat \<Rightarrow> 's)
     \<Rightarrow> (event list \<times> 'r) set" where
  "bulk_then_execute f n predecessor result_factory shared_factory =
     bulk_then_execute_impl f n predecessor result_factory shared_factory"

text \<open>The overload of \<open>bulk_then_execute\<close> chosen for a predecessor future without a value.\<close>

definition bulk_then_execute_void ::
  "('r, 's) agent_function \<Rightarrow> nat \<Rightarrow> (nat \<Rightarrow> 'r) \<Rightarrow> (nat \<Rightarrow> 's) \<Rightarrow> (event list \<times> 'r) set" where
  "bulk_then_execute_void f n result_factory shared_factory =
     bulk_then_execute_impl_void f n result_factory shared_factory"

text \<open>The runs of the body of the root task, the same in both overloads.\<close>

abbreviation root_runs :: "nat \<Rightarrow> event list set" where
  "root_runs n \<equiv>
     interleaved (if 0 < n div 2 then {run. async 0 (n div 2) run} else {[]})
       (if n div 2 + 1 < n then {run. async (n div 2 + 1) n run} else {[]}) [Invoke (n div 2)]"

text \<open>
  A function of the continuation form, as a synchronous executor would call it: the
  predecessor's value travels with the shared parameter.
\<close>

definition with_predecessor ::
  "(nat \<Rightarrow> 'p \<times> 'r \<times> 's \<Rightarrow> 'p \<times> 'r \<times> 's) \<Rightarrow> ('r, 'p \<times> 's) agent_function" where
  "with_predecessor f i refs =
     (case refs of (result, predecessor, shared) \<Rightarrow>
        (case f i (predecessor, result, shared) of
           (predecessor', result', shared') \<Rightarrow> (result', predecessor', shared')))"



text \<open>A test function whose outcome depends on the order of its invocations.\<close>

definition append_f :: "(nat list, 's) agent_function" where
  "append_f i refs = (case refs of (result, shared_parm) \<Rightarrow> (result @ [i], shared_parm))"

text \<open>Factories, a predecessor value and functions used in the concrete runs below.\<close>

definition empty_result :: "nat \<Rightarrow> nat list" where
  "empty_result n = []"

definition unit_shared :: "nat \<Rightarrow> unit" where
  "unit_shared n = ()"

definition append_with_predecessor :: "nat \<Rightarrow> unit \<times> nat list \<times> unit \<Rightarrow> unit \<times> nat list \<times> unit" where
  "append_with_predecessor i refs =
     (case refs of (predecessor, result, shared) \<Rightarrow> (predecessor, result @ [i], shared))"

definition identity_with_predecessor :: "nat \<Rightarrow> unit \<times> nat list \<times> unit \<Rightarrow> unit \<times> nat list \<times> unit" where
  "identity_with_predecessor i refs =
     (case refs of (predecessor, result, shared) \<Rightarrow> (predecessor, result[i := i], shared))"

definition sevens :: "nat \<Rightarrow> nat list" where
  "sevens n = replicate n 7"

section \<open>The accelerator executor (agency/cuda/grid_executor.hpp)\<close>

text \<open>
  \<open>agency::uint2\<close> is a pair of \<open>unsigned int\<close>, \<open>std::size_t\<close> is 64 bits wide; the
  arithmetic of the flattening adapter mixes the two, so both are machine words.
\<close>

type_synonym uint2 = "32 word \<times> 32 word"

subsection \<open>The runtime the executor talks to\<close>

datatype cudaError_t =
  cudaSuccess | cudaErrorInvalidValue | cudaErrorInvalidDevice
  | cudaErrorInvalidConfiguration | cudaErrorNotSupported

text \<open>
  Modelled from the spec: the device query interface, the launch interface and the
  completion-callback interface of the accelerator runtime are not part of the sources.
  The record holds the active device and the answers the runtime gives: the status of
  each call and the values of the two queried attributes (C \<open>int\<close>s, given by their
  value).  \<open>live_objects\<close> are the device objects made by \<open>detail::make_unique\<close> and not
  yet released.
\<close>

record cuda_runtime =
  current_device :: int
  get_device_status :: cudaError_t
  set_device_status :: "int \<Rightarrow> cudaError_t"
  max_block_dim_x :: "int \<Rightarrow> cudaError_t \<times> int"
  func_attributes :: "cudaError_t \<times> int"
  launch_status :: "uint2 \<Rightarrow> cudaError_t"
  add_callback_status :: cudaError_t
  live_objects :: "nat list"

text \<open>What a call can end with instead of returning.\<close>

datatype failure =
  system_error cudaError_t string
  | assertion_failure string
  | division_by_zero

text \<open>\<open>detail::throw_on_error\<close>: an exception carrying the status and the message.\<close>

definition throw_on_error :: "cudaError_t \<Rightarrow> string \<Rightarrow> failure option" where
  "throw_on_error e message = (if e \<noteq> cudaSuccess then Some (system_error e message) else None)"

text \<open>Modelled from the spec: \<open>cudaSetDevice\<close> switches the active device when it succeeds.\<close>

definition cudaSetDevice :: "int \<Rightarrow> cuda_runtime \<Rightarrow> cudaError_t \<times> cuda_runtime" where
  "cudaSetDevice device rt =
     (if set_device_status rt device = cudaSuccess
      then (cudaSuccess, rt\<lparr>current_device := device\<rparr>)
      else (set_device_status rt device, rt))"

record grid_executor =
  shared_memory_size :: int
  stream :: nat
  gpu :: int

text \<open>
  \<open>grid_executor::max_shape\<close>, host code with the runtime library present.  The value is
  the exception or the shape, and the runtime as the call leaves it.
\<close>

definition max_shape :: "grid_executor \<Rightarrow> cuda_runtime \<Rightarrow> (failure + uint2) \<times> cuda_runtime" where
  "max_shape ex rt =
     (case throw_on_error (get_device_status rt)
             ''cuda::grid_executor::max_shape(): cudaGetDevice()'' of
        Some e \<Rightarrow> (Inl e, rt)
      | None \<Rightarrow>
     (let current_device' = current_device rt;
          (switched, rt1) =
             (if current_device' \<noteq> gpu ex then cudaSetDevice (gpu ex) rt else (cudaSuccess, rt))
      in case throw_on_error switched ''cuda::grid_executor::max_shape(): cudaSetDevice()'' of
        Some e \<Rightarrow> (Inl e, rt1)
      | None \<Rightarrow>
     (let (status_x, max_block_dimension_x) = max_block_dim_x rt1 (gpu ex)
      in case throw_on_error status_x
                ''cuda::grid_executor::max_shape(): cudaDeviceGetAttribute'' of
        Some e \<Rightarrow> (Inl e, rt1)
      | None \<Rightarrow>
     (let (status_f, maxThreadsPerBlock) = func_attributes rt1
      in case throw_on_error status_f
                ''cuda::grid_executor::max_shape(): cudaFuncGetAttributes'' of
        Some e \<Rightarrow> (Inl e, rt1)
      | None \<Rightarrow>
     (let (restored, rt2) =
             (if current_device' \<noteq> gpu ex then cudaSetDevice current_device' rt1
              else (cudaSuccess, rt1))
      in case throw_on_error restored ''cuda::grid_executor::max_shape(): cudaSetDevice()'' of
        Some e \<Rightarrow> (Inl e, rt2)
      | None \<Rightarrow>
          (Inr (word_of_int max_block_dimension_x, word_of_int maxThreadsPerBlock), rt2))))))"

subsection \<open>Device functions and their runs\<close>

text \<open>
  What an agent does when it calls a device function is a list of steps: constructing or
  destroying the inner shared object of its block, a step of the user's function, or
  waiting at the barrier \<open>__syncthreads()\<close>.  The inner shared object is a
  \<open>__shared__\<close> variable, one per block, named by the block's index.
\<close>

datatype ('u, 'v) step = Construct "32 word" 'v | Destroy "32 word" | Use 'u | Syncthreads

text \<open>What the user's function receives in a shared-parameter slot.\<close>

datatype shared_ref = ignore_ref | outer_object nat | inner_object "32 word"

text \<open>\<open>agency::detail::ignore_t\<close> or a real shared argument.\<close>

datatype 'a shared_arg = Ignore | Arg 'a

text \<open>
  A user function of the grid executor can be called as \<open>f(idx)\<close> (\<open>None\<close>) and as
  \<open>f(idx, shared_params)\<close>.  What it does with its arguments is a list of steps of its
  own; only the wrappers below construct, destroy and wait at barriers.
\<close>

type_synonym ('i, 'u) device_function = "'i \<Rightarrow> (shared_ref \<times> shared_ref) option \<Rightarrow> 'u list"

text \<open>The kernel function of a launch of \<open>f\<close> itself: each agent calls \<open>f(idx)\<close>.\<close>

definition direct_call :: "('i, 'u) device_function \<Rightarrow> 'i \<Rightarrow> ('u, 'v) step list" where
  "direct_call f idx = map Use (f idx None)"

text \<open>\<open>function_with_shared_arguments<Function, OuterSharedType, InnerSharedType>\<close>\<close>

definition function_with_shared_arguments ::
  "(uint2, 'u) device_function \<Rightarrow> nat \<Rightarrow> 'v \<Rightarrow> uint2 \<Rightarrow> ('u, 'v) step list" where
  "function_with_shared_arguments f outer_ptr inner_shared_init idx =
     (if snd idx = 0 then [Construct (fst idx) inner_shared_init] else [])
     @ [Syncthreads]
     @ map Use (f idx (Some (outer_object outer_ptr, inner_object (fst idx))))
     @ [Syncthreads]
     @ (if snd idx = 0 then [Destroy (fst idx)] else [])"

text \<open>\<open>function_with_shared_arguments<Function, ignore_t, InnerSharedType>\<close>\<close>

definition function_with_inner_shared_argument ::
  "(uint2, 'u) device_function \<Rightarrow> 'v \<Rightarrow> uint2 \<Rightarrow> ('u, 'v) step list" where
  "function_with_inner_shared_argument f inner_shared_init idx =
     (if snd idx = 0 then [Construct (fst idx) inner_shared_init] else [])
     @ [Syncthreads]
     @ map Use (f idx (Some (ignore_ref, inner_object (fst idx))))
     @ [Syncthreads]
     @ (if snd idx = 0 then [Destroy (fst idx)] else [])"

text \<open>\<open>function_with_shared_arguments<Function, OuterSharedType, ignore_t>\<close>\<close>

definition function_with_outer_shared_argument ::
  "(uint2, 'u) device_function \<Rightarrow> nat \<Rightarrow> uint2 \<Rightarrow> ('u, 'v) step list" where
  "function_with_outer_shared_argument f outer_ptr idx =
     map Use (f idx (Some (outer_object outer_ptr, ignore_ref)))"

text \<open>
  Modelled from the spec: the launch interface and the barrier.  A launch over the shape
  \<open>(outer, inner)\<close> runs the kernel function once for every index
  \<open>(blockIdx.x, threadIdx.x)\<close> with \<open>blockIdx.x < outer\<close> and \<open>threadIdx.x < inner\<close>
  (\<open>this_index_1d\<close>).  The agents of a block run concurrently, but none passes a barrier
  before all have reached it; blocks run concurrently and never synchronize with each
  other.  Steps are atomic; a run is the sequence of the steps other than barriers.
\<close>

fun phases :: "('u, 'v) step list \<Rightarrow> ('u, 'v) step list list" where
  "phases [] = [[]]"
| "phases (Syncthreads # steps) = [] # phases steps"
| "phases (s # steps) = (s # hd (phases steps)) # tl (phases steps)"

definition phase :: "nat \<Rightarrow> ('u, 'v) step list \<Rightarrow> ('u, 'v) step list" where
  "phase k steps = (if k < length (phases steps) then phases steps ! k else [])"

fun interleavings :: "'a list list \<Rightarrow> 'a list set" where
  "interleavings [] = {[]}"
| "interleavings (p # ps) = (\<Union>r\<in>interleavings ps. shuffles p r)"

fun in_sequence :: "'a list set list \<Rightarrow> 'a list set" where
  "in_sequence [] = {[]}"
| "in_sequence (T # Ts) = (\<Union>a\<in>T. (\<lambda>b. a @ b) ` in_sequence Ts)"

fun concurrently :: "'a list set list \<Rightarrow> 'a list set" where
  "concurrently [] = {[]}"
| "concurrently (T # Ts) = (\<Union>a\<in>T. \<Union>b\<in>concurrently Ts. shuffles a b)"

definition block_runs :: "('u, 'v) step list list \<Rightarrow> ('u, 'v) step list set" where
  "block_runs programs =
     in_sequence (map (\<lambda>k. interleavings (map (phase k) programs))
                      [0..<fold max (map (\<lambda>p. length (phases p)) programs) 0])"

text \<open>The values of \<open>blockIdx.x\<close>, or of \<open>threadIdx.x\<close>, below an extent.\<close>

definition index_range :: "32 word \<Rightarrow> 32 word list" where
  "index_range extent = map of_nat [0..<unat extent]"

definition block_programs :: "(uint2 \<Rightarrow> ('u, 'v) step list) \<Rightarrow> 32 word \<Rightarrow> 32 word \<Rightarrow> ('u, 'v) step list list" where
  "block_programs kernel_fn inner block = map (\<lambda>thread. kernel_fn (block, thread)) (index_range inner)"

definition kernel_runs :: "(uint2 \<Rightarrow> ('u, 'v) step list) \<Rightarrow> uint2 \<Rightarrow> ('u, 'v) step list set" where
  "kernel_runs kernel_fn shape =
     concurrently (map (\<lambda>block. block_runs (block_programs kernel_fn (snd shape) block))
                       (index_range (fst shape)))"

subsection \<open>Bulk entry points of \<open>basic_grid_executor\<close>\<close>

text \<open>
  \<open>bulk_async(f, shape)\<close>: the launch and the registration of the completion callback can
  each be refused by the runtime; otherwise the returned future becomes ready after one of
  the runs of the kernel.
\<close>

definition launch ::
  "grid_executor \<Rightarrow> cuda_runtime \<Rightarrow> (uint2 \<Rightarrow> ('u, 'v) step list) \<Rightarrow> uint2
     \<Rightarrow> failure + ('u, 'v) step list set" where
  "launch ex rt f shape =
     (case throw_on_error (launch_status rt shape) ''checked_launch_kernel_on_device'' of
        Some e \<Rightarrow> Inl e
      | None \<Rightarrow> Inr (kernel_runs f shape))"

definition bulk_async ::
  "grid_executor \<Rightarrow> cuda_runtime \<Rightarrow> (uint2 \<Rightarrow> ('u, 'v) step list) \<Rightarrow> uint2
     \<Rightarrow> failure + ('u, 'v) step list set" where
  "bulk_async ex rt f shape =
     (case launch ex rt f shape of
        Inl e \<Rightarrow> Inl e
      | Inr runs \<Rightarrow>
          (case throw_on_error (add_callback_status rt)
                  ''cuda::grid_executor::bulk_async(): cudaStreamAddCallback'' of
             Some e \<Rightarrow> Inl e
           | None \<Rightarrow> Inr runs))"

text \<open>\<open>bulk_invoke(f, shape)\<close>, host code: \<open>bulk_async(f, shape).wait()\<close>.\<close>

definition bulk_invoke ::
  "grid_executor \<Rightarrow> cuda_runtime \<Rightarrow> (uint2 \<Rightarrow> ('u, 'v) step list) \<Rightarrow> uint2
     \<Rightarrow> failure + ('u, 'v) step list set" where
  "bulk_invoke ex rt f shape = bulk_async ex rt f shape"

text \<open>
  Modelled from the spec: \<open>detail::make_unique\<close> makes a device object and hands out its
  address; the addresses are numbered in the order of creation.
\<close>

definition make_unique :: "cuda_runtime \<Rightarrow> nat \<times> cuda_runtime" where
  "make_unique rt =
     (let ptr = length (live_objects rt) in (ptr, rt\<lparr>live_objects := live_objects rt @ [ptr]\<rparr>))"

definition release_object :: "nat \<Rightarrow> cuda_runtime \<Rightarrow> cuda_runtime" where
  "release_object ptr rt = rt\<lparr>live_objects := removeAll ptr (live_objects rt)\<rparr>"

text \<open>
  \<open>bulk_async_with_shared_args\<close>: the four overloads, chosen by which arguments are
  \<open>ignore_t\<close>.  The outer object is released from its owner and never destroyed.
\<close>

fun bulk_async_with_shared_args ::
  "grid_executor \<Rightarrow> cuda_runtime \<Rightarrow> (uint2, 'u) device_function \<Rightarrow> uint2
     \<Rightarrow> 'w shared_arg \<Rightarrow> 'v shared_arg
     \<Rightarrow> (failure + ('u, 'v) step list set) \<times> cuda_runtime" where
  "bulk_async_with_shared_args ex rt f shape (Arg outer_shared_arg) (Arg inner_shared_arg) =
     (let (outer_shared_arg_ptr, rt') = make_unique rt;
          g = function_with_shared_arguments f outer_shared_arg_ptr inner_shared_arg
      in (bulk_async ex rt' g shape, rt'))"
| "bulk_async_with_shared_args ex rt f shape Ignore (Arg inner_shared_arg) =
     (let g = function_with_inner_shared_argument f inner_shared_arg
      in (bulk_async ex rt g shape, rt))"
| "bulk_async_with_shared_args ex rt f shape (Arg outer_shared_arg) Ignore =
     (let (outer_shared_arg_ptr, rt') = make_unique rt;
          g = function_with_outer_shared_argument f outer_shared_arg_ptr
      in (bulk_async ex rt' g shape, rt'))"
| "bulk_async_with_shared_args ex rt f shape Ignore Ignore =
     (bulk_async ex rt (direct_call f) shape, rt)"

text \<open>\<open>bulk_async(f, shape, shared_arg_tuple)\<close>\<close>

definition bulk_async_shared ::
  "grid_executor \<Rightarrow> cuda_runtime \<Rightarrow> (uint2, 'u) device_function \<Rightarrow> uint2
     \<Rightarrow> 'w shared_arg \<times> 'v shared_arg
     \<Rightarrow> (failure + ('u, 'v) step list set) \<times> cuda_runtime" where
  "bulk_async_shared ex rt f shape shared_arg_tuple =
     (let outer_shared_arg = fst shared_arg_tuple;
          inner_shared_arg = snd shared_arg_tuple
      in bulk_async_with_shared_args ex rt f shape outer_shared_arg inner_shared_arg)"

text \<open>
  \<open>bulk_invoke_with_shared_args\<close>: as above, but the owner keeps the outer object and
  destroys it when the call returns.
\<close>

fun bulk_invoke_with_shared_args ::
  "grid_executor \<Rightarrow> cuda_runtime \<Rightarrow> (uint2, 'u) device_function \<Rightarrow> uint2
     \<Rightarrow> 'w shared_arg \<Rightarrow> 'v shared_arg
     \<Rightarrow> (failure + ('u, 'v) step list set) \<times> cuda_runtime" where
  "bulk_invoke_with_shared_args ex rt f shape (Arg outer_shared_arg) (Arg inner_shared_arg) =
     (let (outer_shared_arg_ptr, rt') = make_unique rt;
          g = function_with_shared_arguments f outer_shared_arg_ptr inner_shared_arg
      in (bulk_invoke ex rt' g shape, release_object outer_shared_arg_ptr rt'))"
| "bulk_invoke_with_shared_args ex rt f shape Ignore (Arg inner_shared_arg) =
     (let g = function_with_inner_shared_argument f inner_shared_arg
      in (bulk_invoke ex rt g shape, rt))"
| "bulk_invoke_with_shared_args ex rt f shape (Arg outer_shared_arg) Ignore =
     (let (outer_shared_arg_ptr, rt') = make_unique rt;
          g = function_with_outer_shared_argument f outer_shared_arg_ptr
      in (bulk_invoke ex rt' g shape, release_object outer_shared_arg_ptr rt'))"
| "bulk_invoke_with_shared_args ex rt f shape Ignore Ignore =
     (bulk_invoke ex rt (direct_call f) shape, rt)"

text \<open>\<open>bulk_invoke(f, shape, shared_arg_tuple)\<close>\<close>

definition bulk_invoke_shared ::
  "grid_executor \<Rightarrow> cuda_runtime \<Rightarrow> (uint2, 'u) device_function \<Rightarrow> uint2
     \<Rightarrow> 'w shared_arg \<times> 'v shared_arg
     \<Rightarrow> (failure + ('u, 'v) step list set) \<times> cuda_runtime" where
  "bulk_invoke_shared ex rt f shape shared_arg_tuple =
     (let outer_shared_arg = fst shared_arg_tuple;
          inner_shared_arg = snd shared_arg_tuple
      in bulk_invoke_with_shared_args ex rt f shape outer_shared_arg inner_shared_arg)"

subsection \<open>The flattening adapter\<close>

text \<open>
  A user function of the flattened executor is called as \<open>f(flat_idx)\<close> (\<open>None\<close>) or as
  \<open>f(flat_idx, shared)\<close>.
\<close>

type_synonym 'u flat_function = "32 word \<Rightarrow> shared_ref option \<Rightarrow> 'u list"

text \<open>
  \<open>flattened_grid_executor_functor\<close>, both call operators.  The flat index is computed in
  \<open>unsigned int\<close> and converted to \<open>size_t\<close> for the comparison with the flat extent.
\<close>

definition flattened_grid_executor_functor ::
  "'u flat_function \<Rightarrow> 64 word \<Rightarrow> uint2 \<Rightarrow> (uint2, 'u) device_function" where
  "flattened_grid_executor_functor f shape partitioning idx shared_params =
     (let flat_idx = fst idx * snd partitioning + snd idx
      in if (ucast flat_idx :: 64 word) < shape
         then (case shared_params of
                 None \<Rightarrow> f flat_idx None
               | Some params \<Rightarrow> f flat_idx (Some (fst params)))
         else [])"

record flattened_executor =
  outer_subscription :: nat
  base_executor :: grid_executor

text \<open>
  \<open>flattened_executor<cuda::grid_executor>::partition\<close>.  The sum and the quotient are
  formed in \<open>size_t\<close>; the quotient is then stored in an \<open>unsigned int\<close>.  Dividing by
  zero is undefined in the source and is a failure of its own here.
\<close>

definition flattened_partition ::
  "flattened_executor \<Rightarrow> cuda_runtime \<Rightarrow> 64 word \<Rightarrow> (failure + uint2) \<times> cuda_runtime" where
  "flattened_partition ex rt shape =
     (case max_shape (base_executor ex) rt of
        (Inl e, rt') \<Rightarrow> (Inl e, rt')
      | (Inr max_shape', rt') \<Rightarrow>
          (let inner_size = snd max_shape'
           in if inner_size = 0 then (Inl division_by_zero, rt')
              else
                (let outer_size = (ucast ((shape + ucast inner_size - 1) div ucast inner_size) :: 32 word)
                 in if outer_size \<le> fst max_shape'
                    then (Inr (outer_size, inner_size), rt')
                    else (Inl (assertion_failure ''outer_size <= agency::detail::get<0>(max_shape)''),
                          rt'))))"

text \<open>\<open>flattened_executor<cuda::grid_executor>::bulk_async(f, shape)\<close>\<close>

definition flattened_bulk_async ::
  "flattened_executor \<Rightarrow> cuda_runtime \<Rightarrow> 'u flat_function \<Rightarrow> 64 word
     \<Rightarrow> (failure + ('u, 'v) step list set) \<times> cuda_runtime" where
  "flattened_bulk_async ex rt f shape =
     (case flattened_partition ex rt shape of
        (Inl e, rt') \<Rightarrow> (Inl e, rt')
      | (Inr partitioning, rt') \<Rightarrow>
          (let execute_me = flattened_grid_executor_functor f shape partitioning
           in (bulk_async (base_executor ex) rt' (direct_call execute_me) partitioning, rt')))"

text \<open>\<open>flattened_executor<cuda::grid_executor>::bulk_async(f, shape, shared_arg)\<close>\<close>

definition flattened_bulk_async_shared ::
  "flattened_executor \<Rightarrow> cuda_runtime \<Rightarrow> 'u flat_function \<Rightarrow> 64 word \<Rightarrow> 'w
     \<Rightarrow> (failure + ('u, 'v) step list set) \<times> cuda_runtime" where
  "flattened_bulk_async_shared ex rt f shape shared_arg =
     (case flattened_partition ex rt shape of
        (Inl e, rt') \<Rightarrow> (Inl e, rt')
      | (Inr partitioning, rt') \<Rightarrow>
          (let shared_init = (Arg shared_arg, Ignore);
               execute_me = flattened_grid_executor_functor f shape partitioning
           in bulk_async_shared (base_executor ex) rt' execute_me partitioning shared_init))"

subsection \<open>Observing runs\<close>

text \<open>The user steps of a run, in order.\<close>

fun used :: "('u, 'v) step list \<Rightarrow> 'u list" where
  "used [] = []"
| "used (Use u # steps) = u # used steps"
| "used (s # steps) = used steps"

text \<open>User functions that record the arguments of each call as one step.\<close>

definition record_flat :: "32 word flat_function" where
  "record_flat flat_idx shared = [flat_idx]"

definition record_call :: "(uint2, uint2 \<times> (shared_ref \<times> shared_ref) option) device_function" where
  "record_call idx shared_params = [(idx, shared_params)]"

text \<open>The spec's \<open>ceil(n / inner_size)\<close>.\<close>

definition ceil_div :: "nat \<Rightarrow> nat \<Rightarrow> nat" where
  "ceil_div n k = nat \<lceil>real n / real k\<rceil>"

text \<open>
  A runtime that accepts every call, with device 0 active, and reports 1024 for both
  queried attributes; the executor of device 0.
\<close>

definition healthy_runtime :: cuda_runtime where
  "healthy_runtime =
     \<lparr>current_device = 0, get_device_status = cudaSuccess,
      set_device_status = (\<lambda>device. cudaSuccess),
      max_block_dim_x = (\<lambda>device. (cudaSuccess, 1024)),
      func_attributes = (cudaSuccess, 1024),
      launch_status = (\<lambda>shape. cudaSuccess),
      add_callback_status = cudaSuccess,
      live_objects = []\<rparr>"

definition executor_on :: "int \<Rightarrow> grid_executor" where
  "executor_on device = \<lparr>shared_memory_size = 0, stream = 0, gpu = device\<rparr>"

definition flattened_on :: "int \<Rightarrow> flattened_executor" where
  "flattened_on device = \<lparr>outer_subscription = 2, base_executor = executor_on device\<rparr>"

text \<open>The same runtime, except that the query of the block dimension fails.\<close>

definition failing_attribute_runtime :: cuda_runtime where
  "failing_attribute_runtime =
     healthy_runtime\<lparr>max_block_dim_x := (\<lambda>device. (cudaErrorInvalidValue, 0))\<rparr>"

section \<open>The copy algorithm (agency/detail/algorithm/copy.hpp)\<close>

text \<open>
  Iterators are positions in one memory of cells, as pointers are; the memory maps a
  position to the value stored there.  An execution policy is sequenced or not; an
  iterator type is random-access or not.
\<close>

type_synonym 'a memory = "int \<Rightarrow> 'a"

datatype execution_policy =
  sequenced_execution_policy | concurrent_execution_policy
  | parallel_execution_policy | vector_execution_policy

definition policy_is_sequenced :: "execution_policy \<Rightarrow> bool" where
  "policy_is_sequenced policy = (policy = sequenced_execution_policy)"

text \<open>\<open>copy_functor\<close>: the agent of rank \<open>i\<close> performs \<open>result[i] = first[i]\<close>.\<close>

definition copy_functor :: "nat \<Rightarrow> int \<Rightarrow> int \<Rightarrow> 'a memory \<Rightarrow> 'a memory" where
  "copy_functor i first result mem = mem(result + int i := mem (first + int i))"

text \<open>
  Modelled from the spec: \<open>agency::bulk_invoke(policy(n), f, args...)\<close> is not part of the
  sources; it executes \<open>f\<close> once per agent rank in \<open>[0, n)\<close> and returns when all have
  finished.  The agents are taken in the order of their ranks.
\<close>

definition bulk_invoke_policy :: "int \<Rightarrow> (nat \<Rightarrow> 'a memory \<Rightarrow> 'a memory) \<Rightarrow> 'a memory \<Rightarrow> 'a memory" where
  "bulk_invoke_policy n f mem = fold f [0..<nat n] mem"

text \<open>
  \<open>detail::copy\<close>, the overload for a policy that is not sequenced and two random-access
  iterators.  The value is the memory afterwards and the returned iterator.
\<close>

definition copy_random_access ::
  "execution_policy \<Rightarrow> int \<Rightarrow> int \<Rightarrow> int \<Rightarrow> 'a memory \<Rightarrow> 'a memory \<times> int" where
  "copy_random_access policy first lst result mem =
     (let n = lst - first;
          mem' = bulk_invoke_policy n (\<lambda>i. copy_functor i first result) mem
      in (mem', lst + n))"

text \<open>
  \<open>detail::copy\<close>, the overload for a sequenced policy or other iterators: the loop
  \<^verbatim>\<open>for(; first != last; ++first, ++result) *result = *first;\<close>
  which does not end when \<open>last\<close> cannot be reached from \<open>first\<close>.
\<close>

partial_function (option) copy_sequenced ::
  "int \<Rightarrow> int \<Rightarrow> int \<Rightarrow> 'a memory \<Rightarrow> ('a memory \<times> int) option" where
  "copy_sequenced first lst result mem =
     (if first \<noteq> lst
      then copy_sequenced (first + 1) lst (result + 1) (mem(result := mem first))
      else Some (mem, result))"

text \<open>The choice between the two overloads.\<close>

definition copy ::
  "execution_policy \<Rightarrow> bool \<Rightarrow> bool \<Rightarrow> int \<Rightarrow> int \<Rightarrow> int \<Rightarrow> 'a memory
     \<Rightarrow> ('a memory \<times> int) option" where
  "copy policy random_access_in random_access_out first lst result mem =
     (if \<not> policy_is_sequenced policy \<and> random_access_in \<and> random_access_out
      then Some (copy_random_access policy first lst result mem)
      else copy_sequenced first lst result mem)"

text \<open>A memory for the concrete runs: cell \<open>a\<close> holds \<open>100 + a\<close>.\<close>

definition numbered_memory :: "int memory" where
  "numbered_memory a = 100 + a"

section \<open>The synchronous executor\<close>

lemma invoked_append: "invoked (xs @ ys) = invoked xs @ invoked ys"
  by (induction xs rule: invoked.induct) simp_all

lemma replay_append: "replay f (xs @ ys) refs = replay f ys (replay f xs refs)"
  by (induction f xs refs rule: replay.induct) simp_all

lemma for_loop_unfold:
  "i \<le> n \<Longrightarrow> for_loop f i n (trace, refs) =
     (trace @ map Invoke [i..<n], fold f [i..<n] refs)"
proof (induction f i n "(trace, refs)" arbitrary: trace refs rule: for_loop.induct)
  case (1 f i n)
  show ?case
  proof (cases "i < n")
    case True
    then have "for_loop f i n (trace, refs) =
        for_loop f (Suc i) n (trace @ [Invoke i], f i refs)"
      by (subst for_loop.simps) (simp add: invoke_def)
    also have "\<dots> = ((trace @ [Invoke i]) @ map Invoke [Suc i..<n], fold f [Suc i..<n] (f i refs))"
      using True by (intro "1.hyps") (simp_all add: invoke_def)
    finally show ?thesis
      using True by (simp add: upt_conv_Cons)
  next
    case False
    with "1.prems" have "i = n" by simp
    then show ?thesis
      by (subst for_loop.simps) simp
  qed
qed

lemma invoked_map_Invoke: "invoked (map Invoke xs) = xs"
  by (induction xs) simp_all

lemma replay_map_Invoke: "replay f (map Invoke xs) refs = fold f xs refs"
  by (induction xs arbitrary: refs) simp_all

lemma bulk_execute_unfold:
  "bulk_execute f n rf sf =
     ([ResultFactory n, SharedFactory n] @ map Invoke [0..<n], fst (fold f [0..<n] (rf n, sf n)))"
  by (simp add: bulk_execute_def for_loop_unfold split: prod.splits)

lemma fold_identity_f:
  "n \<le> length xs \<Longrightarrow> fold identity_f [0..<n] (xs, s) = ([0..<n] @ drop n xs, s)"
proof (induction n)
  case 0
  then show ?case by simp
next
  case (Suc n)
  then have "fold identity_f [0..<Suc n] (xs, s) = identity_f n ([0..<n] @ drop n xs, s)"
    by simp
  also have "\<dots> = ([0..<n] @ (drop n xs)[0 := n], s)"
    by (simp add: identity_f_def list_update_append)
  also have "(drop n xs)[0 := n] = n # drop (Suc n) xs"
    using Suc.prems by (simp add: Cons_nth_drop_Suc [symmetric])
  finally show ?case by simp
qed

text \<open>
  C8. For every \<open>n\<close> and the identity-style function \<open>f(i, result) = (result[i] = i)\<close>,
  \<open>bulk_execute\<close> of the synchronous reference executor returns a result with
  \<open>result[i] = i\<close> for every \<open>i < n\<close>, and \<open>f\<close> is invoked exactly \<open>n\<close> times, once on
  each index.  The result object made by the factory has room for the \<open>n\<close> writes
  (an out-of-range write is undefined in the source).
\<close>

theorem bulk_execute_identity:
  assumes "n \<le> length (result_factory n)"
  shows "(\<forall>i<n. snd (bulk_execute identity_f n result_factory shared_factory) ! i = i)
       \<and> invoked (fst (bulk_execute identity_f n result_factory shared_factory)) = [0..<n]
       \<and> length (invoked (fst (bulk_execute identity_f n result_factory shared_factory))) = n"
  using assms
  by (simp add: bulk_execute_unfold fold_identity_f invoked_append invoked_map_Invoke nth_append)

theorem bulk_execute_identity_witness:
  "(3::nat) \<le> length (replicate 3 (7::nat))
   \<and> snd (bulk_execute identity_f 3 (\<lambda>n. replicate n 7) (\<lambda>n. ())) ! 0 = 0
   \<and> snd (bulk_execute identity_f 3 (\<lambda>n. replicate n 7) (\<lambda>n. ())) ! 1 = 1
   \<and> snd (bulk_execute identity_f 3 (\<lambda>n. replicate n 7) (\<lambda>n. ())) ! 2 = 2
   \<and> invoked (fst (bulk_execute identity_f 3 (\<lambda>n. replicate n 7) (\<lambda>n. ()))) = [0, 1, 2]
   \<and> length (invoked (fst (bulk_execute identity_f 3 (\<lambda>n. replicate n 7) (\<lambda>n. ())))) = 3"
proof -
  have u: "[0..<3] = [0, 1, 2]" by code_simp
  from bulk_execute_identity [of 3 "\<lambda>n. replicate n (7::nat)" "\<lambda>n. ()"] show ?thesis
    by (simp add: u)
qed

section \<open>The continuation executor: fork and join\<close>

lemma invoked_Cons:
  "invoked (e # es) = (case e of Invoke i \<Rightarrow> [i] | _ \<Rightarrow> []) @ invoked es"
  by (cases e) simp_all

lemma replay_fold: "replay f es refs = fold f (invoked es) refs"
  by (induction f es refs rule: replay.induct) simp_all

lemma invoked_shuffles:
  "zs \<in> shuffles xs ys \<Longrightarrow> mset (invoked zs) = mset (invoked xs) + mset (invoked ys)"
proof (induction xs ys arbitrary: zs rule: shuffles.induct)
  case (3 x xs y ys)
  then show ?case
    by (auto simp: invoked_Cons)
qed simp_all

lemma interleavedE:
  assumes "run \<in> interleaved left right own"
  obtains l r lr where "l \<in> left" "r \<in> right" "lr \<in> shuffles l r" "run \<in> shuffles lr own"
  using assms by (auto simp: interleaved_def)

lemma interleavedI:
  assumes "l \<in> left" "r \<in> right" "lr \<in> shuffles l r" "run \<in> shuffles lr own"
  shows "run \<in> interleaved left right own"
  using assms by (auto simp: interleaved_def)

lemma interleaved_invoked:
  assumes "run \<in> interleaved left right own"
  shows "\<exists>l\<in>left. \<exists>r\<in>right.
           mset (invoked run) = mset (invoked l) + mset (invoked r) + mset (invoked own)"
  using assms by (elim interleavedE) (fastforce dest!: invoked_shuffles)

lemma interleaved_set:
  assumes "run \<in> interleaved left right own"
  shows "\<exists>l\<in>left. \<exists>r\<in>right. set run = set l \<union> set r \<union> set own"
  using assms by (elim interleavedE) (fastforce dest!: set_shuffles)

lemma interleaved_nonempty:
  assumes "left \<noteq> {}" "right \<noteq> {}"
  shows "interleaved left right own \<noteq> {}"
proof -
  from assms obtain l r where "l \<in> left" "r \<in> right" by blast
  moreover have "splice l r \<in> shuffles l r" by simp
  moreover have "splice (splice l r) own \<in> shuffles (splice l r) own" by simp
  ultimately have "splice (splice l r) own \<in> interleaved left right own"
    unfolding interleaved_def by blast
  then show ?thesis by blast
qed

text \<open>The rule of \<open>async\<close>, read as the body of the task.\<close>

lemma async_unfold:
  assumes "mid = ((lst + first) mod 2 ^ 64) div 2"
  shows "async first lst run \<longleftrightarrow>
    (\<exists>body. run = body @ [Ready first lst]
       \<and> body \<in> interleaved (if first < mid then {l. async first mid l} else {[]})
                  (if mid + 1 < lst then {r. async (mid + 1) lst r} else {[]}) [Invoke mid])"
proof
  assume "async first lst run"
  then show "\<exists>body. run = body @ [Ready first lst]
       \<and> body \<in> interleaved (if first < mid then {l. async first mid l} else {[]})
                  (if mid + 1 < lst then {r. async (mid + 1) lst r} else {[]}) [Invoke mid]"
  proof cases
    case (1 mid' left right both body)
    have "left \<in> (if first < mid then {l. async first mid l} else {[]})"
      using 1(2,3) assms by auto
    moreover have "right \<in> (if mid + 1 < lst then {r. async (mid + 1) lst r} else {[]})"
      using 1(2,4) assms by auto
    ultimately have "body \<in> interleaved (if first < mid then {l. async first mid l} else {[]})
                  (if mid + 1 < lst then {r. async (mid + 1) lst r} else {[]}) [Invoke mid]"
      using 1(2,5,6) assms by (intro interleavedI [of left _ right _ both]) simp_all
    with 1(1) show ?thesis by blast
  qed
next
  assume "\<exists>body. run = body @ [Ready first lst]
       \<and> body \<in> interleaved (if first < mid then {l. async first mid l} else {[]})
                  (if mid + 1 < lst then {r. async (mid + 1) lst r} else {[]}) [Invoke mid]"
  then obtain body where run: "run = body @ [Ready first lst]"
    and body: "body \<in> interleaved (if first < mid then {l. async first mid l} else {[]})
                  (if mid + 1 < lst then {r. async (mid + 1) lst r} else {[]}) [Invoke mid]"
    by blast
  from body obtain l r lr where
    l: "l \<in> (if first < mid then {l. async first mid l} else {[]})"
    and r: "r \<in> (if mid + 1 < lst then {r. async (mid + 1) lst r} else {[]})"
    and lr: "lr \<in> shuffles l r" "body \<in> shuffles lr [Invoke mid]"
    by (rule interleavedE)
  have "(first < mid \<and> async first mid l) \<or> (mid \<le> first \<and> l = [])"
    using l by (cases "first < mid") simp_all
  moreover have "(mid + 1 < lst \<and> async (mid + 1) lst r) \<or> (lst \<le> mid + 1 \<and> r = [])"
    using r by (cases "mid + 1 < lst") simp_all
  ultimately show "async first lst run"
    unfolding run using lr by (intro async.intros [OF assms])
qed

text \<open>Up to \<open>2^63\<close> the sum does not wrap, and the midpoint splits the range.\<close>

lemma mid_exact:
  fixes first lst :: nat
  assumes "first < lst" "lst \<le> 2 ^ 63"
  shows "((lst + first) mod 2 ^ 64) div 2 = (lst + first) div 2"
    and "first \<le> (lst + first) div 2" and "(lst + first) div 2 < lst"
proof -
  have "(2::nat) ^ 64 = 2 ^ 63 + 2 ^ 63" by simp
  with assms have "lst + first < 2 ^ 64" by linarith
  then show "((lst + first) mod 2 ^ 64) div 2 = (lst + first) div 2"
    by (simp only: mod_less)
  show "first \<le> (lst + first) div 2" "(lst + first) div 2 < lst"
    using assms(1) by linarith+
qed

lemma upt_split_mid:
  fixes first mid lst :: nat
  assumes "first \<le> mid" "mid < lst"
  shows "mset [first..<lst] = mset [first..<mid] + mset [mid + 1..<lst] + {#mid#}"
proof -
  have "[first..<lst] = [first..<mid] @ mid # [mid + 1..<lst]"
    using assms by (metis Suc_eq_plus1 upt_conv_Cons upt_add_eq_append le_Suc_ex less_imp_le_nat)
  then show ?thesis by simp
qed

lemma async_invoked:
  "async first lst run \<Longrightarrow> first < lst \<Longrightarrow> lst \<le> 2 ^ 63
     \<Longrightarrow> mset (invoked run) = mset [first..<lst]"
proof (induction rule: async.induct)
  case (1 mid lst first left right both body)
  note m = mid_exact [OF "1.prems"]
  have mid: "mid = (lst + first) div 2" "first \<le> mid" "mid < lst"
    using "1.hyps"(1) m by simp_all
  have left: "mset (invoked left) = mset [first..<mid]"
    using "1.IH"(1) mid "1.prems"(2) by auto
  have right: "mset (invoked right) = mset [mid + 1..<lst]"
    using "1.IH"(2) mid "1.prems"(2) by auto
  have "mset (invoked body) = mset (invoked left) + mset (invoked right) + {#mid#}"
    using invoked_shuffles [OF "1.hyps"(2)] invoked_shuffles [OF "1.hyps"(3)] by simp
  then show ?case
    using upt_split_mid [OF mid(2,3)] by (simp add: invoked_append left right)
qed


lemma async_ready_ranges:
  "async first lst run \<Longrightarrow> first < lst \<Longrightarrow> lst \<le> 2 ^ 63 \<Longrightarrow> Ready a b \<in> set run
     \<Longrightarrow> first \<le> a \<and> a < b \<and> b \<le> lst"
proof (induction rule: async.induct)
  case (1 mid lst first left right both body)
  note m = mid_exact [OF "1.prems"(1,2)]
  have mid: "mid = (lst + first) div 2" "first \<le> mid" "mid < lst"
    using "1.hyps"(1) m by simp_all
  from set_shuffles [OF "1.hyps"(2)] set_shuffles [OF "1.hyps"(3)] "1.prems"(3)
  consider "(a, b) = (first, lst)" | "Ready a b \<in> set left" | "Ready a b \<in> set right"
    by auto
  then show ?case
  proof cases
    case 1
    with "1.prems"(1) show ?thesis by simp
  next
    case 2
    with "1.IH"(1) mid "1.prems"(2) show ?thesis by auto
  next
    case 3
    with "1.IH"(2) mid "1.prems"(2) show ?thesis by auto
  qed
qed

lemma async_exists:
  "first < lst \<Longrightarrow> lst \<le> 2 ^ 63 \<Longrightarrow> \<exists>run. async first lst run"
proof (induction "lst - first" arbitrary: first lst rule: less_induct)
  case less
  let ?mid = "((lst + first) mod 2 ^ 64) div 2"
  note m = mid_exact [OF less.prems]
  have mid: "first \<le> ?mid" "?mid < lst" using m by simp_all
  have "(if first < ?mid then {l. async first ?mid l} else {[]}) \<noteq> {}"
  proof (cases "first < ?mid")
    case True
    then have "\<exists>run. async first ?mid run"
      using mid less.prems by (intro less.hyps) simp_all
    with True show ?thesis by auto
  qed simp
  moreover have "(if ?mid + 1 < lst then {r. async (?mid + 1) lst r} else {[]}) \<noteq> {}"
  proof (cases "?mid + 1 < lst")
    case True
    then have "\<exists>run. async (?mid + 1) lst run"
      using mid less.prems by (intro less.hyps) simp_all
    with True show ?thesis by auto
  qed simp
  ultimately obtain body where "body \<in> interleaved (if first < ?mid then {l. async first ?mid l} else {[]})
      (if ?mid + 1 < lst then {r. async (?mid + 1) lst r} else {[]}) [Invoke ?mid]"
    using interleaved_nonempty by blast
  then have "async first lst (body @ [Ready first lst])"
    by (subst async_unfold [OF refl]) blast
  then show ?case ..
qed


text \<open>The outcomes of the two overloads, written over the runs of the root's body.\<close>

lemma then_void_outcomes:
  assumes "0 < n"
  shows "bulk_then_execute_impl_void f n rf sf
    = (\<lambda>run. ([ResultFactory n, SharedFactory n] @ run @ [Ready 0 n],
               fst (fold f (invoked run) (rf n, sf n)))) ` root_runs n"
  using assms by (simp add: bulk_then_execute_impl_void_def Let_def replay_fold)

lemma then_outcomes:
  assumes "0 < n"
  shows "bulk_then_execute_impl f n predecessor rf sf
    = (\<lambda>run. ([ResultFactory n, SharedFactory n] @ run @ [Ready 0 n],
               fst (snd (fold f (invoked run) (predecessor, rf n, sf n))))) ` root_runs n"
  using assms by (simp add: bulk_then_execute_impl_def Let_def replay_fold)

lemma then_outcome_zero:
  "bulk_then_execute_impl_void f 0 rf sf = {([ResultFactory 0, Ready 0 0], rf 0)}"
  "bulk_then_execute_impl g 0 predecessor rf sf = {([ResultFactory 0, Ready 0 0], rf 0)}"
  by (simp_all add: bulk_then_execute_impl_void_def bulk_then_execute_impl_def)

lemma root_halves:
  fixes n :: nat
  assumes "0 < n" "n \<le> 2 ^ 63"
  shows "n div 2 \<le> 2 ^ 63" "n div 2 < n"
  using assms by simp_all

lemma root_runs_nonempty:
  assumes "0 < n" "n \<le> 2 ^ 63"
  shows "root_runs n \<noteq> {}"
proof -
  have "(if 0 < n div 2 then {run. async 0 (n div 2) run} else {[]}) \<noteq> {}"
    using async_exists [of 0 "n div 2"] root_halves [OF assms] by auto
  moreover have "(if n div 2 + 1 < n then {run. async (n div 2 + 1) n run} else {[]}) \<noteq> {}"
    using async_exists [of "n div 2 + 1" n] assms(2) by auto
  ultimately show ?thesis by (rule interleaved_nonempty)
qed

lemma root_invoked:
  assumes "0 < n" "n \<le> 2 ^ 63" "run \<in> root_runs n"
  shows "mset (invoked run) = mset [0..<n]"
proof -
  let ?mid = "n div 2"
  have mid: "0 \<le> ?mid" "?mid < n" using assms(1) by simp_all
  have left: "mset (invoked l) = mset [0..<?mid]"
    if "l \<in> (if 0 < ?mid then {run. async 0 ?mid run} else {[]})" for l
    using that async_invoked [of 0 ?mid l] root_halves [OF assms(1,2)]
    by (cases "0 < ?mid") simp_all
  have right: "mset (invoked r) = mset [?mid + 1..<n]"
    if "r \<in> (if ?mid + 1 < n then {run. async (?mid + 1) n run} else {[]})" for r
  proof (cases "?mid + 1 < n")
    case True
    with that async_invoked [of "?mid + 1" n r] assms(2) show ?thesis by simp
  next
    case False
    with that mid show ?thesis by simp
  qed
  from interleaved_invoked [OF assms(3)] left right
  have "mset (invoked run) = mset [0..<?mid] + mset [?mid + 1..<n] + {#?mid#}"
    by auto
  then show ?thesis
    using upt_split_mid [OF mid] by simp
qed


lemma root_ready_ranges:
  assumes "0 < n" "n \<le> 2 ^ 63" "run \<in> root_runs n" "Ready a b \<in> set run"
  shows "a < b \<and> (b \<le> n div 2 \<or> n div 2 < a) \<and> b \<le> n"
proof -
  from interleaved_set [OF assms(3)] obtain l r where
    lr: "l \<in> (if 0 < n div 2 then {run. async 0 (n div 2) run} else {[]})"
        "r \<in> (if n div 2 + 1 < n then {run. async (n div 2 + 1) n run} else {[]})"
        "set run = set l \<union> set r \<union> set [Invoke (n div 2)]"
    by blast
  from assms(4) lr(3) consider "Ready a b \<in> set l" | "Ready a b \<in> set r"
    by auto
  then show ?thesis
  proof cases
    case 1
    with lr(1) have l: "0 < n div 2" "async 0 (n div 2) l"
      by (auto split: if_splits)
    from async_ready_ranges [OF l(2) l(1) root_halves(1) [OF assms(1,2)] 1]
    have "a < b \<and> b \<le> n div 2" by simp
    moreover have "n div 2 \<le> n" by simp
    ultimately show ?thesis by linarith
  next
    case 2
    with lr(2) have r: "n div 2 + 1 < n" "async (n div 2 + 1) n r"
      by (auto split: if_splits)
    from async_ready_ranges [OF r(2) r(1) assms(2) 2] show ?thesis by simp
  qed
qed

text \<open>Within \<open>2^63\<close>: the fork and join of the root task.\<close>

lemma fork_join_within_range:
  assumes "0 < n" "n \<le> 2 ^ 63"
  shows "bulk_then_execute f n predecessor rf sf \<noteq> {}
     \<and> (\<forall>(t, r)\<in>bulk_then_execute f n predecessor rf sf.
          \<exists>run. t = [ResultFactory n, SharedFactory n] @ run @ [Ready 0 n]
             \<and> run \<in> root_runs n
             \<and> mset (invoked run) = mset [0..<n]
             \<and> length (invoked run) = n
             \<and> (\<forall>a b. Ready a b \<in> set run \<longrightarrow> a < b \<and> b \<le> n)
             \<and> Ready 0 n \<notin> set run)"
proof -
  have "\<exists>run'. t = [ResultFactory n, SharedFactory n] @ run' @ [Ready 0 n]
             \<and> run' \<in> root_runs n
             \<and> mset (invoked run') = mset [0..<n]
             \<and> length (invoked run') = n
             \<and> (\<forall>a b. Ready a b \<in> set run' \<longrightarrow> a < b \<and> b \<le> n)
             \<and> Ready 0 n \<notin> set run'"
    if "(t, r) \<in> bulk_then_execute f n predecessor rf sf" for t r
  proof -
    from that obtain run where t: "t = [ResultFactory n, SharedFactory n] @ run @ [Ready 0 n]"
      and run: "run \<in> root_runs n"
      by (auto simp: bulk_then_execute_def then_outcomes [OF assms(1)])
    note inv = root_invoked [OF assms run]
    from inv have len: "length (invoked run) = n"
      by (metis length_upt minus_nat.diff_0 size_mset)
    have ranges: "a < b \<and> b \<le> n" if "Ready a b \<in> set run" for a b
      using root_ready_ranges [OF assms run that] by simp
    have "Ready 0 n \<notin> set run"
    proof
      assume "Ready 0 n \<in> set run"
      from root_ready_ranges [OF assms run this] assms(1) show False by auto
    qed
    with t run inv len ranges show ?thesis by blast
  qed
  moreover have "bulk_then_execute f n predecessor rf sf \<noteq> {}"
    using root_runs_nonempty [OF assms]
    by (simp add: bulk_then_execute_def then_outcomes [OF assms(1)])
  ultimately show ?thesis by blast
qed

text \<open>When the invocations commute, every run of the root task gives the loop's result.\<close>

lemma commuting_run:
  assumes comm: "\<forall>i<n. \<forall>j<n. f i \<circ> f j = f j \<circ> f i"
    and inv: "mset (invoked run) = mset [0..<n]"
  shows "fold f (invoked run) = fold f [0..<n]"
proof -
  from inv have "set (invoked run) = {0..<n}"
    by (metis set_mset_mset set_upt)
  with comm have "f x \<circ> f y = f y \<circ> f x" if "x \<in> set (invoked run)" "y \<in> set (invoked run)" for x y
    using that by simp
  then show ?thesis
    using inv by (rule fold_multiset_equiv)
qed

lemma fold_with_predecessor:
  "fold (with_predecessor f) xs (r, p, s)
     = (case fold f xs (p, r, s) of (p', r', s') \<Rightarrow> (r', p', s'))"
proof (induction xs arbitrary: r p s)
  case Nil
  then show ?case by simp
next
  case (Cons x xs)
  obtain p1 r1 s1 where step: "f x (p, r, s) = (p1, r1, s1)"
    by (cases "f x (p, r, s)") auto
  then have "with_predecessor f x (r, p, s) = (r1, p1, s1)"
    by (simp add: with_predecessor_def)
  with step show ?case
    by (simp add: Cons.IH)
qed

lemma then_void_agrees:
  assumes bound: "n \<le> 2 ^ 63" and comm: "\<forall>i<n. \<forall>j<n. f i \<circ> f j = f j \<circ> f i"
    and mem: "(t, r) \<in> bulk_then_execute_impl_void f n rf sf"
  shows "r = snd (bulk_execute f n rf sf) \<and> mset (invoked t) = mset [0..<n]"
proof (cases "0 < n")
  case True
  from mem obtain run where t: "t = [ResultFactory n, SharedFactory n] @ run @ [Ready 0 n]"
    and r: "r = fst (fold f (invoked run) (rf n, sf n))"
    and run: "run \<in> root_runs n"
    by (auto simp: then_void_outcomes [OF True])
  note inv = root_invoked [OF True bound run]
  from commuting_run [OF comm inv] t r inv show ?thesis
    by (simp add: bulk_execute_unfold invoked_append)
next
  case False
  with mem show ?thesis
    by (simp add: then_outcome_zero bulk_execute_unfold)
qed

lemma then_agrees:
  assumes bound: "n \<le> 2 ^ 63" and comm: "\<forall>i<n. \<forall>j<n. f i \<circ> f j = f j \<circ> f i"
    and mem: "(t, r) \<in> bulk_then_execute_impl f n predecessor rf sf"
  shows "r = snd (bulk_execute (with_predecessor f) n rf (\<lambda>n. (predecessor, sf n)))
       \<and> mset (invoked t) = mset [0..<n]"
proof (cases "0 < n")
  case True
  from mem obtain run where t: "t = [ResultFactory n, SharedFactory n] @ run @ [Ready 0 n]"
    and r: "r = fst (snd (fold f (invoked run) (predecessor, rf n, sf n)))"
    and run: "run \<in> root_runs n"
    by (auto simp: then_outcomes [OF True])
  note inv = root_invoked [OF True bound run]
  from commuting_run [OF comm inv] t r inv show ?thesis
    by (simp add: bulk_execute_unfold invoked_append fold_with_predecessor split: prod.splits)
next
  case False
  with mem show ?thesis
    by (simp add: then_outcome_zero bulk_execute_unfold)
qed

lemma then_nonempty:
  assumes "n \<le> 2 ^ 63"
  shows "bulk_then_execute_impl_void f n rf sf \<noteq> {}"
    and "bulk_then_execute_impl g n predecessor rf sf \<noteq> {}"
proof -
  show "bulk_then_execute_impl_void f n rf sf \<noteq> {}"
  proof (cases "0 < n")
    case True
    with root_runs_nonempty [OF True assms] show ?thesis
      by (simp add: then_void_outcomes)
  qed (simp add: then_outcome_zero)
  show "bulk_then_execute_impl g n predecessor rf sf \<noteq> {}"
  proof (cases "0 < n")
    case True
    with root_runs_nonempty [OF True assms] show ?thesis
      by (simp add: then_outcomes)
  qed (simp add: then_outcome_zero)
qed

lemma identity_f_commute: "identity_f i \<circ> identity_f j = identity_f j \<circ> identity_f i"
  by (cases "i = j") (auto simp: fun_eq_iff identity_f_def list_update_swap)

lemma identity_with_predecessor_commute:
  "identity_with_predecessor i \<circ> identity_with_predecessor j
     = identity_with_predecessor j \<circ> identity_with_predecessor i"
  by (cases "i = j") (auto simp: fun_eq_iff identity_with_predecessor_def list_update_swap)




lemma async_eq_sync: "bulk_async_execute f n rf sf = bulk_execute f n rf sf"
  by (simp add: bulk_async_execute_def bulk_execute_def)





text \<open>Beyond \<open>2^63\<close>: the midpoint of a task whose range ends at \<open>2^64 - 1\<close>.\<close>

lemma wrapped_mid:
  fixes k :: nat
  assumes "k \<le> 63"
  shows "((2 ^ 64 - 1 + 2 ^ k) mod 2 ^ 64) div 2 + 1 = (2::nat) ^ (k - 1)"
    and "(2::nat) ^ (k - 1) < 2 ^ 64 - 1"
proof -
  define P :: nat where "P = 2 ^ k"
  have le: "P \<le> 2 ^ 63"
    unfolding P_def using assms power_increasing [of k 63 "2::nat"] by simp
  have pos: "1 \<le> P"
    unfolding P_def by simp
  have eq: "(2::nat) ^ 64 - 1 + P = 2 ^ 64 + (P - 1)"
    using pos by simp
  have lt: "P - 1 < 2 ^ 64"
    using le by simp
  from eq have "(2 ^ 64 - 1 + P) mod 2 ^ 64 = (2 ^ 64 + (P - 1)) mod (2 ^ 64 :: nat)"
    by (simp only:)
  also have "\<dots> = (P - 1) mod 2 ^ 64"
    by (rule mod_add_self1)
  also have "\<dots> = P - 1"
    using lt by (rule mod_less)
  finally have md: "(2 ^ 64 - 1 + P) mod 2 ^ 64 = P - 1" .
  have "(P - 1) div 2 + 1 = 2 ^ (k - 1)"
  proof (cases k)
    case 0
    then show ?thesis by (simp add: P_def)
  next
    case (Suc j)
    have "1 \<le> (2::nat) ^ j" by simp
    then have "(2 * 2 ^ j - 1) div 2 + 1 = (2::nat) ^ j"
      by presburger
    with Suc show ?thesis by (simp add: P_def)
  qed
  with md show "((2 ^ 64 - 1 + 2 ^ k) mod 2 ^ 64) div 2 + 1 = (2::nat) ^ (k - 1)"
    by (simp add: P_def)
  have "(2::nat) ^ (k - 1) \<le> 2 ^ 63"
    using assms power_increasing [of "k - 1" 63 "2::nat"] by simp
  then show "(2::nat) ^ (k - 1) < 2 ^ 64 - 1"
    by simp
qed

lemma async_wrapped_no_run:
  assumes "async first lst run" "lst = 2 ^ 64 - 1" "k \<le> 63" "first = 2 ^ k"
  shows False
  using assms
proof (induction arbitrary: k rule: async.induct)
  case (1 mid lst first left right both body)
  from "1.hyps"(1) "1.prems" wrapped_mid [of k]
  have m: "mid + 1 = 2 ^ (k - 1)" "mid + 1 < lst"
    by simp_all
  have "k - 1 \<le> 63" using "1.prems"(2) by simp
  with "1.IH"(2) m "1.prems"(1) show False
    by auto
qed

lemma root_wrapped_no_run: "root_runs (2 ^ 64 - 1) = {}"
proof -
  have "\<not> async (2 ^ 63) (2 ^ 64 - 1) run" for run
    using async_wrapped_no_run [of "2 ^ 63" "2 ^ 64 - 1" run 63] by auto
  then have "{run. async ((2 ^ 64 - 1) div 2 + 1) (2 ^ 64 - 1) run} = {}"
    by simp
  then show ?thesis
    by (simp add: interleaved_def)
qed

text \<open>Runs of small tasks.\<close>

lemma async_0_1: "async 0 1 [Invoke 0, Ready 0 1]"
proof -
  have "async 0 1 ([Invoke 0] @ [Ready 0 1])"
    by (rule async.intros [of 0 1 0 "[]" "[]" "[]"]) simp_all
  then show ?thesis by simp
qed

lemma async_2_3: "async 2 3 [Invoke 2, Ready 2 3]"
proof -
  have "async 2 3 ([Invoke 2] @ [Ready 2 3])"
    by (rule async.intros [of 2 3 2 "[]" "[]" "[]"]) simp_all
  then show ?thesis by simp
qed

lemma root_run_2: "[Invoke 1, Invoke 0, Ready 0 1] \<in> root_runs 2"
proof -
  from async_0_1 have "[Invoke 0, Ready 0 1] \<in> (if (0::nat) < 2 div 2 then {run. async 0 (2 div 2) run} else {[]})"
    by simp
  moreover have "[] \<in> (if (2::nat) div 2 + 1 < 2 then {run. async (2 div 2 + 1) 2 run} else {[]})"
    by simp
  moreover have "[Invoke 0, Ready 0 1] \<in> shuffles [Invoke 0, Ready 0 1] []"
    by simp
  moreover have "[Invoke 1, Invoke 0, Ready 0 1] \<in> shuffles [Invoke 0, Ready 0 1] [Invoke (2 div 2)]"
    by (simp add: shuffles.simps)
  ultimately show ?thesis
    by (rule interleavedI)
qed

lemma root_run_3: "[Invoke 1, Invoke 2, Invoke 0, Ready 0 1, Ready 2 3] \<in> root_runs 3"
proof -
  from async_0_1 have "[Invoke 0, Ready 0 1] \<in> (if (0::nat) < 3 div 2 then {run. async 0 (3 div 2) run} else {[]})"
    by simp
  moreover have "(3::nat) div 2 + 1 = 2"
    by simp
  with async_2_3 have "[Invoke 2, Ready 2 3] \<in> (if (3::nat) div 2 + 1 < 3 then {run. async (3 div 2 + 1) 3 run} else {[]})"
    by (simp only: mem_Collect_eq) simp
  moreover have "[Invoke 2, Invoke 0, Ready 0 1, Ready 2 3]
      \<in> shuffles [Invoke 0, Ready 0 1] [Invoke 2, Ready 2 3]"
    by (simp add: shuffles.simps)
  moreover have "[Invoke 1, Invoke 2, Invoke 0, Ready 0 1, Ready 2 3]
      \<in> shuffles [Invoke 2, Invoke 0, Ready 0 1, Ready 2 3] [Invoke (3 div 2)]"
    by (simp add: shuffles.simps)
  ultimately show ?thesis
    by (rule interleavedI)
qed


text \<open>How a run of the root's body gives an outcome.\<close>

lemma then_void_outcomeI:
  assumes "0 < n" "run \<in> root_runs n" "r = fst (fold f (invoked run) (rf n, sf n))"
  shows "([ResultFactory n, SharedFactory n] @ run @ [Ready 0 n], r)
    \<in> bulk_then_execute_impl_void f n rf sf"
  unfolding then_void_outcomes [OF assms(1)] using assms(2,3)
  by (intro image_eqI [where x = run]) simp_all

lemma then_outcomeI:
  assumes "0 < n" "run \<in> root_runs n"
    "r = fst (snd (fold f (invoked run) (predecessor, rf n, sf n)))"
  shows "([ResultFactory n, SharedFactory n] @ run @ [Ready 0 n], r)
    \<in> bulk_then_execute_impl f n predecessor rf sf"
  unfolding then_outcomes [OF assms(1)] using assms(2,3)
  by (intro image_eqI [where x = run]) simp_all
section \<open>Claims about the host reference executors\<close>

text \<open>
  C3 (the code at the failing input). For \<open>n = 2^64 - 1\<close> the root task splits at
  \<open>mid = 2^63 - 1\<close> and starts a task for the right half \<open>[2^63, 2^64 - 1)\<close>.  That task
  computes \<open>(last + first) / 2\<close> from a sum that wraps: its midpoint is \<open>2^62 - 1\<close>, an
  index of the left half, and it starts a task for \<open>[2^62, 2^64 - 1)\<close>, whose sum wraps
  again, and so on down to the task for \<open>[1, 2^64 - 1)\<close>, whose midpoint is 0 and which
  starts a task for its own range once more.  None of these tasks ever finishes, so the task
  of the right half has no run, and the continuation executor (either overload) has no
  outcome: the returned future never becomes ready.
\<close>

theorem fork_join_midpoint_wraps:
  "((2 ^ 64 - 1 + 2 ^ 63) mod 2 ^ 64) div 2 = (2 ^ 62 - 1 :: nat)
   \<and> (\<forall>run. \<not> async (2 ^ 63) (2 ^ 64 - 1) run)
   \<and> bulk_then_execute f (2 ^ 64 - 1) predecessor result_factory shared_factory = {}
   \<and> bulk_then_execute_void g (2 ^ 64 - 1) result_factory shared_factory = {}"
proof -
  have "((2 ^ 64 - 1 + 2 ^ 63) mod 2 ^ 64) div 2 = (2 ^ 62 - 1 :: nat)"
    by simp
  moreover have "\<not> async (2 ^ 63) (2 ^ 64 - 1) run" for run
    using async_wrapped_no_run [of "2 ^ 63" "2 ^ 64 - 1" run 63] by auto
  moreover have "bulk_then_execute f (2 ^ 64 - 1) predecessor result_factory shared_factory = {}"
    unfolding bulk_then_execute_def
    by (subst then_outcomes) (simp_all only: root_wrapped_no_run image_empty, simp)
  moreover have "bulk_then_execute_void g (2 ^ 64 - 1) result_factory shared_factory = {}"
    unfolding bulk_then_execute_void_def
    by (subst then_void_outcomes) (simp_all only: root_wrapped_no_run image_empty, simp)
  ultimately show ?thesis by blast
qed

text \<open>
  Within \<open>0 < n \<le> 2^63\<close> no sum wraps, and the fork and join are as described: the root
  task splits \<open>[0, n)\<close> at \<open>mid = n div 2\<close>, starts a task for \<open>[0, mid)\<close> only when
  \<open>0 < mid\<close> and a task for \<open>[mid + 1, n)\<close> only when \<open>mid + 1 < n\<close>, invokes agent \<open>mid\<close>
  itself and waits for both tasks.  The returned future does become ready, and in every
  possible run every index of \<open>[0, n)\<close> is invoked exactly once, every task whose future
  became ready had a non-empty range within \<open>[0, n)\<close>, and the returned future is ready
  only as the last event (lemma \<open>fork_join_within_range\<close>).  One run for \<open>n = 3\<close>:
\<close>

lemma fork_join_small:
  "([ResultFactory 3, SharedFactory 3]
        @ [Invoke 1, Invoke 2, Invoke 0, Ready 0 1, Ready 2 3] @ [Ready 0 3], [1, 2, 0])
       \<in> bulk_then_execute append_with_predecessor 3 () empty_result unit_shared
   \<and> mset (invoked [Invoke 1, Invoke 2, Invoke 0, Ready 0 1, Ready 2 3]) = mset [0..<3]
   \<and> Ready 0 3 \<notin> set [Invoke 1, Invoke 2, Invoke 0, Ready 0 1, Ready 2 3]"
proof -
  let ?run = "[Invoke 1, Invoke 2, Invoke 0, Ready 0 1, Ready 2 3]"
  have pos: "(0::nat) < 3" "(3::nat) \<le> 2 ^ 63" by simp_all
  have m: "([ResultFactory 3, SharedFactory 3] @ ?run @ [Ready 0 3], [1, 2, 0])
       \<in> bulk_then_execute append_with_predecessor 3 () empty_result unit_shared"
    unfolding bulk_then_execute_def
    by (rule then_outcomeI [OF pos(1) root_run_3])
      (simp add: append_with_predecessor_def empty_result_def)
  from fork_join_within_range [OF pos, of append_with_predecessor "()" empty_result unit_shared] m
  obtain run where run: "[ResultFactory 3, SharedFactory 3] @ ?run @ [Ready 0 3]
        = [ResultFactory 3, SharedFactory 3] @ run @ [Ready 0 3]"
    and props: "mset (invoked run) = mset [0..<3]" "Ready 0 3 \<notin> set run"
    by fast
  from run have "run = ?run" by simp
  with props m show ?thesis by simp
qed

text \<open>
  C2 (as stated, refuted). With a function whose outcome depends on the order of its
  invocations (here: append the index to the result), the continuation executor can deliver
  a result that the synchronous loop does not: for \<open>n = 2\<close> the root task may invoke agent 1
  before the task of the left half invokes agent 0.
\<close>

theorem continuation_result_differs:
  "([ResultFactory 2, SharedFactory 2, Invoke 1, Invoke 0, Ready 0 1, Ready 0 2], [1, 0])
     \<in> bulk_then_execute_void append_f 2 empty_result unit_shared
   \<and> snd (bulk_execute append_f 2 empty_result unit_shared) = [0, 1]"
proof -
  have "([ResultFactory 2, SharedFactory 2] @ [Invoke 1, Invoke 0, Ready 0 1] @ [Ready 0 2], [1, 0])
     \<in> bulk_then_execute_void append_f 2 empty_result unit_shared"
    unfolding bulk_then_execute_void_def
    by (rule then_void_outcomeI [OF _ root_run_2]) (simp_all add: append_f_def empty_result_def)
  moreover have "snd (bulk_execute append_f 2 empty_result unit_shared) = [0, 1]"
    by (simp add: bulk_execute_unfold append_f_def empty_result_def upt_rec)
  ultimately show ?thesis by simp
qed

text \<open>
  C2 (amended). For every count \<open>n \<le> 2^63\<close>, factories and satisfied predecessor, and
  every function whose invocations are atomic with respect to one another and, on the
  indices below \<open>n\<close>, commute with one another: the asynchronous executor delivers what
  the synchronous executor returns, the continuation executor (either overload) does
  deliver a result, every possible outcome of it carries the result of the synchronous
  executor (which, for the overload with a predecessor value, is handed that value next
  to the shared parameter), and each of the three invokes the function on every index of
  \<open>[0, n)\<close> exactly once.
\<close>

theorem executors_agree:
  assumes "n \<le> 2 ^ 63"
    and "\<forall>i<n. \<forall>j<n. g i \<circ> g j = g j \<circ> g i"
    and "\<forall>i<n. \<forall>j<n. f i \<circ> f j = f j \<circ> f i"
  shows "bulk_async_execute g n result_factory shared_factory
           = bulk_execute g n result_factory shared_factory
     \<and> invoked (fst (bulk_execute g n result_factory shared_factory)) = [0..<n]
     \<and> bulk_then_execute_void g n result_factory shared_factory \<noteq> {}
     \<and> (\<forall>(t, r)\<in>bulk_then_execute_void g n result_factory shared_factory.
          r = snd (bulk_execute g n result_factory shared_factory)
          \<and> mset (invoked t) = mset [0..<n])
     \<and> bulk_async_execute (with_predecessor f) n result_factory (\<lambda>n. (predecessor, shared_factory n))
           = bulk_execute (with_predecessor f) n result_factory (\<lambda>n. (predecessor, shared_factory n))
     \<and> invoked (fst (bulk_execute (with_predecessor f) n result_factory
           (\<lambda>n. (predecessor, shared_factory n)))) = [0..<n]
     \<and> bulk_then_execute f n predecessor result_factory shared_factory \<noteq> {}
     \<and> (\<forall>(t, r)\<in>bulk_then_execute f n predecessor result_factory shared_factory.
          r = snd (bulk_execute (with_predecessor f) n result_factory
                (\<lambda>n. (predecessor, shared_factory n)))
          \<and> mset (invoked t) = mset [0..<n])"
proof -
  have inv: "invoked (fst (bulk_execute h n rf sf)) = [0..<n]"
    for h :: "('x, 'y) agent_function" and rf sf
    by (simp add: bulk_execute_unfold invoked_append invoked_map_Invoke)
  show ?thesis
    using then_void_agrees [OF assms(1,2), of _ _ result_factory shared_factory]
      then_agrees [OF assms(1,3), of _ _ predecessor result_factory shared_factory]
      then_nonempty(1) [OF assms(1), of g result_factory shared_factory]
      then_nonempty(2) [OF assms(1), of f predecessor result_factory shared_factory]
    by (auto simp: async_eq_sync inv bulk_then_execute_def bulk_then_execute_void_def)
qed

theorem executors_agree_witness:
  "(2::nat) \<le> 2 ^ 63
   \<and> (\<forall>i j. identity_f i \<circ> identity_f j
        = (identity_f j :: nat list \<times> unit \<Rightarrow> nat list \<times> unit) \<circ> identity_f i)
   \<and> (\<forall>i j. identity_with_predecessor i \<circ> identity_with_predecessor j
        = identity_with_predecessor j \<circ> identity_with_predecessor i)
   \<and> ([ResultFactory 2, SharedFactory 2, Invoke 1, Invoke 0, Ready 0 1, Ready 0 2], [0, 1])
     \<in> bulk_then_execute identity_with_predecessor 2 () sevens unit_shared
   \<and> snd (bulk_execute (with_predecessor identity_with_predecessor) 2 sevens
        (\<lambda>n. ((), unit_shared n))) = [0, 1]
   \<and> snd (bulk_async_execute (with_predecessor identity_with_predecessor) 2 sevens
        (\<lambda>n. ((), unit_shared n))) = [0, 1]
   \<and> ([ResultFactory 2, SharedFactory 2, Invoke 1, Invoke 0, Ready 0 1, Ready 0 2], [0, 1])
     \<in> bulk_then_execute_void identity_f 2 sevens unit_shared
   \<and> snd (bulk_execute identity_f 2 sevens unit_shared) = [0, 1]
   \<and> mset (invoked [ResultFactory 2, SharedFactory 2, Invoke 1, Invoke 0, Ready 0 1, Ready 0 2])
       = mset [0..<2]"
proof -
  let ?t = "[ResultFactory 2, SharedFactory 2, Invoke 1, Invoke 0, Ready 0 1, Ready 0 2]"
  have bound: "(2::nat) \<le> 2 ^ 63" by simp
  have comm_g: "\<forall>i<2. \<forall>j<2. identity_f i \<circ> identity_f j
      = (identity_f j :: nat list \<times> unit \<Rightarrow> nat list \<times> unit) \<circ> identity_f i"
    by (simp add: identity_f_commute)
  have comm_f: "\<forall>i<2. \<forall>j<2. identity_with_predecessor i \<circ> identity_with_predecessor j
      = identity_with_predecessor j \<circ> identity_with_predecessor i"
    by (simp add: identity_with_predecessor_commute)
  have m: "([ResultFactory 2, SharedFactory 2] @ [Invoke 1, Invoke 0, Ready 0 1] @ [Ready 0 2], [0, 1])
     \<in> bulk_then_execute identity_with_predecessor 2 () sevens unit_shared"
    unfolding bulk_then_execute_def
    by (rule then_outcomeI [OF _ root_run_2])
      (simp_all add: identity_with_predecessor_def sevens_def numeral_2_eq_2)
  have mv: "([ResultFactory 2, SharedFactory 2] @ [Invoke 1, Invoke 0, Ready 0 1] @ [Ready 0 2], [0, 1])
     \<in> bulk_then_execute_void identity_f 2 sevens unit_shared"
    unfolding bulk_then_execute_void_def
    by (rule then_void_outcomeI [OF _ root_run_2])
      (simp_all add: identity_f_def sevens_def numeral_2_eq_2)
  note agree = executors_agree [OF bound comm_g comm_f, of sevens unit_shared "()"]
  from agree m have s: "snd (bulk_execute (with_predecessor identity_with_predecessor) 2 sevens
        (\<lambda>n. ((), unit_shared n))) = [0, 1]"
    by fastforce
  from agree mv have sv: "snd (bulk_execute identity_f 2 sevens unit_shared) = [0, 1]"
    by fastforce
  from agree m have i: "mset (invoked ?t) = mset [0..<2]"
    by fastforce
  from agree have a: "bulk_async_execute (with_predecessor identity_with_predecessor) 2 sevens
        (\<lambda>n. ((), unit_shared n))
      = bulk_execute (with_predecessor identity_with_predecessor) 2 sevens (\<lambda>n. ((), unit_shared n))"
    by blast
  from bound m mv s sv i a show ?thesis
    by (simp add: identity_f_commute identity_with_predecessor_commute)
qed



section \<open>Runs of a launch\<close>

lemma append_in_shuffles: "xs @ ys \<in> shuffles xs ys"
  by (induction xs) (simp_all add: Cons_in_shuffles_leftI)

lemma interleavings_mset: "r \<in> interleavings ps \<Longrightarrow> mset r = mset (concat ps)"
  by (induction ps arbitrary: r) (auto dest: mset_shuffles)

lemma concat_in_interleavings: "concat ps \<in> interleavings ps"
  by (induction ps) (auto intro: append_in_shuffles)

lemma interleavings_empties: "\<forall>p\<in>set ps. p = [] \<Longrightarrow> interleavings ps = {[]}"
  by (induction ps) simp_all

lemma interleavings_first_only:
  "\<forall>p\<in>set ps. p = [] \<Longrightarrow> interleavings (p0 # ps) = {p0}"
  by (simp add: interleavings_empties)

lemma concurrently_mset:
  assumes "\<And>x a. x \<in> set xs \<Longrightarrow> a \<in> F x \<Longrightarrow> mset a = M x"
    and "run \<in> concurrently (map F xs)"
  shows "mset run = (\<Sum>x\<leftarrow>xs. M x)"
  using assms
proof (induction xs arbitrary: run)
  case Nil
  then show ?case by simp
next
  case (Cons x xs)
  from Cons.prems(2) obtain a b where ab: "a \<in> F x" "b \<in> concurrently (map F xs)"
    "run \<in> shuffles a b"
    by auto
  have "mset b = (\<Sum>x\<leftarrow>xs. M x)"
    by (rule Cons.IH [OF _ ab(2)]) (simp add: Cons.prems(1))
  moreover have "mset a = M x"
    using ab(1) by (simp add: Cons.prems(1))
  ultimately show ?case
    using mset_shuffles [OF ab(3)] by simp
qed

lemma concurrently_nonempty:
  assumes "\<And>x. x \<in> set xs \<Longrightarrow> F x \<noteq> {}"
  shows "concurrently (map F xs) \<noteq> {}"
  using assms
proof (induction xs)
  case Nil
  then show ?case by simp
next
  case (Cons x xs)
  then obtain a b where "a \<in> F x" "b \<in> concurrently (map F xs)"
    by (metis ex_in_conv list.set_intros(1) list.set_intros(2))
  moreover have "a @ b \<in> shuffles a b" by (rule append_in_shuffles)
  ultimately show ?case by auto
qed

text \<open>A function without barriers has a single phase.\<close>

lemma phases_no_sync: "Syncthreads \<notin> set p \<Longrightarrow> phases p = [p]"
  by (induction p rule: phases.induct) simp_all

lemma phases_sync_split:
  "Syncthreads \<notin> set a \<Longrightarrow> phases (a @ Syncthreads # rest) = a # phases rest"
  by (induction a rule: phases.induct) simp_all

lemma fold_max_const:
  fixes m :: nat
  assumes "\<forall>x\<in>set xs. x = m"
  shows "fold max xs a = (if xs = [] then a else max a m)"
  using assms by (induction xs arbitrary: a) (auto simp: max.assoc)

lemma block_runs_uniform:
  assumes "programs \<noteq> []" "\<forall>p\<in>set programs. length (phases p) = m"
  shows "block_runs programs
    = in_sequence (map (\<lambda>k. interleavings (map (\<lambda>p. phases p ! k) programs)) [0..<m])"
proof -
  have m: "fold max (map (\<lambda>p. length (phases p)) programs) 0 = m"
    using assms fold_max_const [of "map (\<lambda>p. length (phases p)) programs" m 0] by auto
  have "interleavings (map (phase k) programs)
      = interleavings (map (\<lambda>p. phases p ! k) programs)" if "k < m" for k
  proof -
    have "map (phase k) programs = map (\<lambda>p. phases p ! k) programs"
      using that assms(2) by (simp add: phase_def)
    then show ?thesis by (rule arg_cong)
  qed
  then have eq: "map (\<lambda>k. interleavings (map (phase k) programs)) [0..<m]
      = map (\<lambda>k. interleavings (map (\<lambda>p. phases p ! k) programs)) [0..<m]"
    by (intro map_cong refl) (simp only: atLeastLessThan_iff set_upt)
  show ?thesis
    unfolding block_runs_def m eq ..
qed

lemma block_runs_no_sync:
  assumes "\<forall>p\<in>set programs. Syncthreads \<notin> set p"
  shows "block_runs programs = interleavings programs"
proof (cases "programs = []")
  case True
  then show ?thesis by (simp add: block_runs_def)
next
  case False
  have one: "\<forall>p\<in>set programs. length (phases p) = 1"
    using assms by (simp add: phases_no_sync)
  have "map (\<lambda>p. phases p ! 0) programs = programs"
    using assms by (simp add: phases_no_sync map_idI)
  with block_runs_uniform [OF False one] show ?thesis
    by simp
qed

lemma sync_free_Use: "Syncthreads \<notin> set (map Use us)"
  by auto

lemma used_map_Use: "used (map Use us) = us"
  by (induction us) simp_all

lemma used_Cons: "used (s # steps) = (case s of Use u \<Rightarrow> [u] | _ \<Rightarrow> []) @ used steps"
  by (cases s) simp_all

lemma used_append: "used (xs @ ys) = used xs @ used ys"
  by (induction xs) (simp_all add: used_Cons)

lemma used_concat_map_Use: "used (concat (map (\<lambda>x. map Use (g x)) xs)) = concat (map g xs)"
  by (induction xs) (simp_all add: used_append used_map_Use)

lemma mset_used: "mset steps = mset steps' \<Longrightarrow> mset (used steps) = mset (used steps')"
proof -
  have "mset (used s) = image_mset (\<lambda>x. case x of Use u \<Rightarrow> u) (filter_mset (\<lambda>x. case x of Use u \<Rightarrow> True | _ \<Rightarrow> False) (mset s))"
    for s :: "('a, 'b) step list"
    by (induction s rule: used.induct) simp_all
  then show "mset steps = mset steps' \<Longrightarrow> mset (used steps) = mset (used steps')"
    by simp
qed

text \<open>
  The runs of a launch of a function without barriers: each is a rearrangement of the
  steps of all agents.
\<close>

lemma kernel_runs_direct_mset:
  assumes "run \<in> kernel_runs (direct_call f) shape"
  shows "mset run =
    (\<Sum>block\<leftarrow>index_range (fst shape).
       mset (concat (block_programs (direct_call f) (snd shape) block)))"
proof -
  have nosync: "\<forall>p\<in>set (block_programs (direct_call f) (snd shape) block). Syncthreads \<notin> set p"
    for block
    by (auto simp: block_programs_def direct_call_def)
  show ?thesis
  proof (rule concurrently_mset [where F = "\<lambda>block. block_runs (block_programs (direct_call f) (snd shape) block)"])
    show "run \<in> concurrently (map (\<lambda>block. block_runs (block_programs (direct_call f) (snd shape) block))
        (index_range (fst shape)))"
      using assms by (simp add: kernel_runs_def)
  next
    fix block a
    assume "a \<in> block_runs (block_programs (direct_call f) (snd shape) block)"
    then show "mset a = mset (concat (block_programs (direct_call f) (snd shape) block))"
      by (simp add: block_runs_no_sync [OF nosync] interleavings_mset)
  qed
qed

lemma kernel_runs_direct_nonempty:
  "kernel_runs (direct_call f :: uint2 \<Rightarrow> ('u, 'v) step list) shape \<noteq> {}"
proof -
  let ?k = "direct_call f :: uint2 \<Rightarrow> ('u, 'v) step list"
  have nosync: "\<forall>p\<in>set (block_programs ?k (snd shape) block). Syncthreads \<notin> set p"
    for block
    by (auto simp: block_programs_def direct_call_def)
  have "block_runs (block_programs ?k (snd shape) block) \<noteq> {}" for block
    using concat_in_interleavings [of "block_programs ?k (snd shape) block"]
    by (auto simp: block_runs_no_sync [OF nosync])
  then show ?thesis
    unfolding kernel_runs_def by (intro concurrently_nonempty) simp
qed

text \<open>The three phases of a block that runs the shared-state protocol.\<close>

lemma index_range_designated:
  assumes "inner \<noteq> 0"
  shows "index_range inner = 0 # map of_nat [1..<unat inner]
       \<and> (\<forall>t\<in>set (map of_nat [1..<unat inner] :: 32 word list). t \<noteq> 0)"
proof -
  have pos: "0 < unat inner"
    using assms by (simp add: unat_gt_0)
  have "(of_nat j :: 32 word) \<noteq> 0" if "1 \<le> j" "j < unat inner" for j
  proof
    assume "(of_nat j :: 32 word) = 0"
    then have "unat (of_nat j :: 32 word) = 0" by simp
    moreover have "j < 2 ^ 32"
      using that(2) unsigned_less [of inner, where ?'a = nat] by simp
    ultimately show False
      using that(1) by (simp add: unat_of_nat)
  qed
  then show ?thesis
    using pos by (auto simp: index_range_def upt_conv_Cons)
qed

lemma in_sequence3: "in_sequence [A, B, C] = (\<Union>a\<in>A. \<Union>b\<in>B. \<Union>c\<in>C. {a @ b @ c})"
  by auto

lemma shared_protocol_runs:
  fixes f :: "(uint2, 'u) device_function" and init :: 'v
  assumes "inner \<noteq> 0"
    and prog: "\<And>thread. g (block, thread) =
       (if thread = 0 then [Construct block init] else [])
       @ [Syncthreads] @ map Use (f (block, thread) (Some refs)) @ [Syncthreads]
       @ (if thread = 0 then [Destroy block] else [])"
  shows "block_runs (block_programs g inner block)
     = (\<lambda>uses. [Construct block init] @ uses @ [Destroy block])
        ` interleavings (map (\<lambda>thread. map Use (f (block, thread) (Some refs))) (index_range inner))"
proof -
  let ?threads = "index_range inner"
  let ?rest = "map of_nat [1..<unat inner] :: 32 word list"
  let ?programs = "block_programs g inner block"
  from index_range_designated [OF assms(1)]
  have threads: "?threads = 0 # ?rest" and rest: "\<forall>t\<in>set ?rest. t \<noteq> 0"
    by simp_all
  have ph: "phases (g (block, thread)) =
      [if thread = 0 then [Construct block init] else [],
       map Use (f (block, thread) (Some refs)),
       if thread = 0 then [Destroy block] else []]" for thread
  proof -
    have a: "Syncthreads \<notin> set (if thread = 0 then [Construct block init :: ('u, 'v) step] else [])"
      by simp
    have b: "Syncthreads \<notin> set (map Use (f (block, thread) (Some refs)) :: ('u, 'v) step list)"
      by auto
    have c: "Syncthreads \<notin> set (if thread = 0 then [Destroy block :: ('u, 'v) step] else [])"
      by simp
    show ?thesis
      unfolding prog
      using phases_sync_split [OF a] phases_sync_split [OF b] phases_no_sync [OF c]
      by simp
  qed
  have ne: "?programs \<noteq> []"
    by (simp add: block_programs_def threads)
  have three: "\<forall>p\<in>set ?programs. length (phases p) = 3"
    by (auto simp: block_programs_def ph)
  have upt3: "[0..<3] = [0, Suc 0, Suc (Suc 0)]" by code_simp
  have first: "interleavings (map (\<lambda>p. phases p ! 0) ?programs) = {[Construct block init]}"
  proof -
    have "map (\<lambda>p. phases p ! 0) ?programs
        = [Construct block init] # map (\<lambda>t. []) ?rest"
      using rest by (simp add: block_programs_def threads ph)
    then show ?thesis
      by (simp add: interleavings_empties)
  qed
  have third: "interleavings (map (\<lambda>p. phases p ! Suc (Suc 0)) ?programs) = {[Destroy block]}"
  proof -
    have "map (\<lambda>p. phases p ! Suc (Suc 0)) ?programs
        = [Destroy block] # map (\<lambda>t. []) ?rest"
      using rest by (simp add: block_programs_def threads ph)
    then show ?thesis
      by (simp add: interleavings_empties)
  qed
  have second: "map (\<lambda>p. phases p ! Suc 0) ?programs
      = map (\<lambda>thread. map Use (f (block, thread) (Some refs))) ?threads"
    by (simp add: block_programs_def ph)
  show ?thesis
    unfolding block_runs_uniform [OF ne three] upt3
    by (auto simp: first second third simp del: interleavings.simps)
qed

section \<open>The arithmetic of the flattening adapter\<close>

lemma unat_ucast_32_64: "unat (ucast (k :: 32 word) :: 64 word) = unat k"
proof -
  have "unat k < 2 ^ 32" using unsigned_less [of k, where ?'a = nat] by simp
  then have "unat k < 2 ^ 64" by (rule less_trans) simp
  then show ?thesis
    by (simp add: unsigned_ucast_eq take_bit_nat_eq_self)
qed

lemma unat_ucast_64_32: "unat (x :: 64 word) < 2 ^ 32 \<Longrightarrow> unat (ucast x :: 32 word) = unat x"
  by (simp add: unsigned_ucast_eq take_bit_nat_eq_self)

lemma round_up_bounds:
  fixes n k :: nat
  assumes "0 < k"
  shows "n \<le> (n + k - 1) div k * k" and "(n + k - 1) div k * k < n + k"
proof -
  have eq: "(n + k - 1) div k * k + (n + k - 1) mod k = n + k - 1"
    by simp
  have "(n + k - 1) mod k \<le> k - 1"
    using assms by (metis Suc_pred less_Suc_eq_le mod_less_divisor One_nat_def)
  with eq show "n \<le> (n + k - 1) div k * k"
    using assms by linarith
  from eq show "(n + k - 1) div k * k < n + k"
    using assms by linarith
qed

lemma ceil_div_eq:
  assumes "0 < k"
  shows "ceil_div n k = (n + k - 1) div k"
proof -
  let ?q = "(n + k - 1) div k"
  have k: "0 < real k" using assms by simp
  from round_up_bounds [OF assms, of n]
  have "real n \<le> real (?q * k)" and "real (?q * k) < real (n + k)"
    by (simp_all only: of_nat_le_iff of_nat_less_iff)
  then have "real n \<le> real ?q * real k" and "real ?q * real k < real n + real k"
    by simp_all
  then have "real n / real k \<le> real ?q" and "real ?q - 1 < real n / real k"
    using k by (simp_all add: pos_divide_le_eq pos_less_divide_eq left_diff_distrib)
  then have "\<lceil>real n / real k\<rceil> = int ?q"
    by (intro ceiling_unique) simp_all
  then show ?thesis
    by (simp add: ceil_div_def)
qed

lemma outer_size_exact:
  fixes n :: "64 word" and k :: "32 word"
  assumes "k \<noteq> 0" "unat n + unat k - 1 < 2 ^ 64" "(unat n + unat k - 1) div unat k < 2 ^ 32"
  shows "unat (ucast ((n + ucast k - 1) div ucast k) :: 32 word) = (unat n + unat k - 1) div unat k"
proof -
  let ?K = "ucast k :: 64 word"
  have K: "unat ?K = unat k" by (rule unat_ucast_32_64)
  have k1: "0 < unat k" using assms(1) by (simp add: unat_gt_0)
  then have "?K \<noteq> 0" using K by (metis unat_gt_0)
  then have km: "unat (?K - 1) = unat k - 1"
    by (simp add: unat_minus_one K)
  have "unat n + unat (?K - 1) < 2 ^ LENGTH(64)"
    using assms(2) k1 by (simp add: km)
  then have "unat (n + (?K - 1)) = unat n + unat (?K - 1)"
    by (simp only: unat_add_lem)
  moreover have "n + ?K - 1 = n + (?K - 1)" by (simp only: add_diff_eq)
  ultimately have s: "unat (n + ?K - 1) = unat n + unat k - 1"
    using k1 by (simp only: km)
  have d: "unat ((n + ?K - 1) div ?K) = (unat n + unat k - 1) div unat k"
    by (simp only: unat_div s K)
  show ?thesis
    using assms(3) by (simp only: unat_ucast_64_32 d)
qed

lemma flattened_partition_after_max_shape:
  assumes "max_shape (base_executor ex) rt = (Inr (max_outer, max_inner), rt')"
  shows "flattened_partition ex rt n =
     (if max_inner = 0 then (Inl division_by_zero, rt')
      else if (ucast ((n + ucast max_inner - 1) div ucast max_inner) :: 32 word) \<le> max_outer
      then (Inr (ucast ((n + ucast max_inner - 1) div ucast max_inner), max_inner), rt')
      else (Inl (assertion_failure ''outer_size <= agency::detail::get<0>(max_shape)''), rt'))"
  using assms by (simp add: flattened_partition_def Let_def)

lemma flattened_partition_exact:
  assumes ms: "max_shape (base_executor ex) rt = (Inr (max_outer, max_inner), rt')"
    and inner: "max_inner \<noteq> 0"
    and sum: "unat n + unat max_inner - 1 < 2 ^ 64"
    and quot: "ceil_div (unat n) (unat max_inner) < 2 ^ 32"
  shows "flattened_partition ex rt n =
     (if ceil_div (unat n) (unat max_inner) \<le> unat max_outer
      then (Inr (of_nat (ceil_div (unat n) (unat max_inner)), max_inner), rt')
      else (Inl (assertion_failure ''outer_size <= agency::detail::get<0>(max_shape)''), rt'))"
proof -
  let ?w = "ucast ((n + ucast max_inner - 1) div ucast max_inner) :: 32 word"
  have pos: "0 < unat max_inner" using inner by (simp add: unat_gt_0)
  have c: "ceil_div (unat n) (unat max_inner) = (unat n + unat max_inner - 1) div unat max_inner"
    by (rule ceil_div_eq [OF pos])
  have w: "unat ?w = ceil_div (unat n) (unat max_inner)"
    using outer_size_exact [OF inner sum] quot by (simp only: c)
  have "of_nat (unat ?w) = ?w" by simp
  then have "of_nat (ceil_div (unat n) (unat max_inner)) = ?w"
    by (simp only: w)
  moreover have "?w \<le> max_outer \<longleftrightarrow> ceil_div (unat n) (unat max_inner) \<le> unat max_outer"
    by (simp only: word_le_nat_alt w)
  ultimately show ?thesis
    using inner by (simp only: flattened_partition_after_max_shape [OF ms] if_False)
qed

lemma concat_rows:
  "concat (map (\<lambda>i. concat (map (\<lambda>j. G (i * K + j)) [0..<K])) [0..<m]) = concat (map G [0..<m * K])"
proof (induction m)
  case 0
  then show ?case by simp
next
  case (Suc m)
  have "[0..<Suc m * K] = [0..<m * K] @ [m * K..<m * K + K]"
    by (metis add.commute le_add1 mult_Suc upt_add_eq_append zero_le)
  moreover have "map (\<lambda>j. G (m * K + j)) [0..<K] = map G [m * K..<m * K + K]"
    by (simp add: map_add_upt [symmetric] add.commute comp_def del: map_add_upt)
  ultimately show ?case
    using Suc by simp
qed

lemma concat_guarded:
  assumes "N \<le> M"
  shows "concat (map (\<lambda>x. if x < N then H x else []) [0..<M]) = concat (map H [0..<N])"
proof -
  have "[0..<M] = [0..<N] @ [N..<M]"
    using assms by (metis le_add_diff_inverse upt_add_eq_append zero_le)
  moreover have "concat (map (\<lambda>x. if x < N then H x else []) [N..<M]) = []"
    by simp
  moreover have "map (\<lambda>x. if x < N then H x else []) [0..<N] = map H [0..<N]"
    by simp
  ultimately show ?thesis by (simp only: map_append concat_append append_Nil2)
qed

lemma functor_no_wrap:
  fixes n :: "64 word" and k :: "32 word"
  assumes "i * unat k + j < 2 ^ 32"
  shows "flattened_grid_executor_functor f n (oc, k) (of_nat i, of_nat j) None
    = (if i * unat k + j < unat n then f (of_nat (i * unat k + j)) None else [])"
proof -
  let ?flat = "of_nat i * k + of_nat j :: 32 word"
  have "?flat = of_nat (i * unat k + j)"
    by simp
  then have u: "unat ?flat = i * unat k + j"
    using assms by (simp only: unat_of_nat) simp
  have "(ucast ?flat :: 64 word) < n \<longleftrightarrow> i * unat k + j < unat n"
    by (simp only: word_less_nat_alt unat_ucast_32_64 u)
  then show ?thesis
    by (simp add: flattened_grid_executor_functor_def Let_def)
qed

lemma flattened_agents_steps:
  fixes n :: "64 word" and oc k :: "32 word" and f :: "'u flat_function"
  assumes range: "unat oc * unat k \<le> 2 ^ 32" and fits: "unat n \<le> unat oc * unat k"
  shows "concat (map (\<lambda>block. concat (block_programs
            (direct_call (flattened_grid_executor_functor f n (oc, k))) k block))
          (index_range oc))
       = (map Use (concat (map (\<lambda>x. f (of_nat x) None) [0..<unat n])) :: ('u, 'v) step list)"
proof -
  let ?F = "direct_call (flattened_grid_executor_functor f n (oc, k)) :: uint2 \<Rightarrow> ('u, 'v) step list"
  let ?G = "\<lambda>x. if x < unat n then map Use (f (of_nat x) None) else ([] :: ('u, 'v) step list)"
  have agent: "?F (of_nat i, of_nat j) = ?G (i * unat k + j)" if "i < unat oc" "j < unat k" for i j
  proof -
    have "i * unat k + j < Suc i * unat k" using that(2) by simp
    also have "\<dots> \<le> unat oc * unat k" using that(1) by (intro mult_le_mono1) simp
    finally have lt: "i * unat k + j < 2 ^ 32" using range by simp
    show ?thesis
      by (simp only: direct_call_def functor_no_wrap [OF lt] if_distrib [of "map Use"] list.map)
  qed
  have row: "concat (block_programs ?F k (of_nat i))
      = concat (map (\<lambda>j. ?G (i * unat k + j)) [0..<unat k])" if "i < unat oc" for i
  proof -
    have "map (\<lambda>j. ?F (of_nat i, of_nat j)) [0..<unat k]
        = map (\<lambda>j. ?G (i * unat k + j)) [0..<unat k]"
      by (rule map_cong [OF refl]) (simp only: agent [OF that] set_upt atLeastLessThan_iff)
    then show ?thesis
      by (simp only: block_programs_def index_range_def map_map comp_def)
  qed
  have "concat (map (\<lambda>block. concat (block_programs ?F k block)) (index_range oc))
      = concat (map (\<lambda>i. concat (block_programs ?F k (of_nat i))) [0..<unat oc])"
    by (simp only: index_range_def map_map comp_def)
  also have "\<dots> = concat (map (\<lambda>i. concat (map (\<lambda>j. ?G (i * unat k + j)) [0..<unat k])) [0..<unat oc])"
  proof -
    have "map (\<lambda>i. concat (block_programs ?F k (of_nat i))) [0..<unat oc]
        = map (\<lambda>i. concat (map (\<lambda>j. ?G (i * unat k + j)) [0..<unat k])) [0..<unat oc]"
      by (rule map_cong [OF refl]) (simp only: row set_upt atLeastLessThan_iff)
    then show ?thesis by (rule arg_cong)
  qed
  also have "\<dots> = concat (map ?G [0..<unat oc * unat k])"
    by (rule concat_rows)
  also have "\<dots> = concat (map (\<lambda>x. map Use (f (of_nat x) None)) [0..<unat n])"
    by (rule concat_guarded [OF fits])
  also have "\<dots> = map Use (concat (map (\<lambda>x. f (of_nat x) None) [0..<unat n]))"
    by (simp add: map_concat comp_def)
  finally show ?thesis .
qed

lemma flattened_runs_cover:
  fixes n :: "64 word" and oc k :: "32 word" and f :: "'u flat_function"
    and run :: "('u, 'v) step list"
  assumes range: "unat oc * unat k \<le> 2 ^ 32" and fits: "unat n \<le> unat oc * unat k"
    and run: "run \<in> kernel_runs (direct_call (flattened_grid_executor_functor f n (oc, k))) (oc, k)"
  shows "mset (used run) = mset (concat (map (\<lambda>x. f (of_nat x) None) [0..<unat n]))"
proof -
  let ?F = "direct_call (flattened_grid_executor_functor f n (oc, k)) :: uint2 \<Rightarrow> ('u, 'v) step list"
  from kernel_runs_direct_mset [OF run]
  have "mset run = (\<Sum>block\<leftarrow>index_range oc. mset (concat (block_programs ?F k block)))"
    by simp
  also have "\<dots> = mset (concat (map (\<lambda>block. concat (block_programs ?F k block)) (index_range oc)))"
    by (simp add: mset_concat comp_def)
  also have "\<dots> = mset (map Use (concat (map (\<lambda>x. f (of_nat x) None) [0..<unat n])) :: ('u, 'v) step list)"
    by (simp only: flattened_agents_steps [OF range fits])
  finally have "mset (used run)
      = mset (used (map Use (concat (map (\<lambda>x. f (of_nat x) None) [0..<unat n])) :: ('u, 'v) step list))"
    by (rule mset_used)
  then show ?thesis
    by (simp only: used_map_Use)
qed

lemma length_used_le: "length (used steps) \<le> length steps"
  by (induction steps rule: used.induct) simp_all

lemma distinct_flat_indices:
  assumes "N \<le> 2 ^ 32"
  shows "distinct (map of_nat [0..<N] :: 32 word list)"
proof -
  have "inj_on (of_nat :: nat \<Rightarrow> 32 word) (set [0..<N])"
  proof (rule inj_onI)
    fix x y assume xy: "x \<in> set [0..<N]" "y \<in> set [0..<N]" "(of_nat x :: 32 word) = of_nat y"
    then have "x < 2 ^ LENGTH(32)" "y < 2 ^ LENGTH(32)" using assms by simp_all
    from of_nat_inverse [OF xy(3) this(1)] of_nat_inverse [OF refl this(2)]
    show "x = y" by simp
  qed
  then show ?thesis by (simp add: distinct_map)
qed

lemma healthy_max_shape:
  "max_shape (executor_on 0) healthy_runtime = (Inr (1024, 1024), healthy_runtime)"
  by (simp add: max_shape_def executor_on_def healthy_runtime_def throw_on_error_def)

lemma flattened_dispatch:
  fixes f :: "'u flat_function" and n :: "64 word"
  assumes ms: "max_shape (base_executor ex) rt = (Inr (max_outer, max_inner), rt')"
    and accepted: "launch_status rt' (of_nat (ceil_div (unat n) (unat max_inner)), max_inner) = cudaSuccess"
      "add_callback_status rt' = cudaSuccess"
    and inner: "max_inner \<noteq> 0"
    and fits: "ceil_div (unat n) (unat max_inner) \<le> unat max_outer"
    and range: "ceil_div (unat n) (unat max_inner) * unat max_inner \<le> 2 ^ 32"
  shows "flattened_bulk_async ex rt f n =
    (Inr (kernel_runs (direct_call (flattened_grid_executor_functor f n
             (of_nat (ceil_div (unat n) (unat max_inner)), max_inner)))
          (of_nat (ceil_div (unat n) (unat max_inner)), max_inner)) :: failure + ('u, 'v) step list set, rt')"
    and "unat (of_nat (ceil_div (unat n) (unat max_inner)) :: 32 word) = ceil_div (unat n) (unat max_inner)"
    and "unat n \<le> ceil_div (unat n) (unat max_inner) * unat max_inner"
proof -
  let ?OC = "ceil_div (unat n) (unat max_inner)"
  have pos: "0 < unat max_inner" using inner by (simp add: unat_gt_0)
  have "unat max_outer < 2 ^ 32" using unsigned_less [of max_outer, where ?'a = nat] by simp
  with fits have oc32: "?OC < 2 ^ 32" by simp
  then show oc: "unat (of_nat ?OC :: 32 word) = ?OC"
    by (simp add: unat_of_nat)
  show cover: "unat n \<le> ?OC * unat max_inner"
    using round_up_bounds(1) [OF pos, of "unat n"] by (simp only: ceil_div_eq [OF pos])
  have "unat max_inner < 2 ^ 32" using unsigned_less [of max_inner, where ?'a = nat] by simp
  moreover have "(2::nat) ^ 32 + 2 ^ 32 \<le> 2 ^ 64" by simp
  ultimately have sum: "unat n + unat max_inner - 1 < 2 ^ 64"
    using cover range by linarith
  have part: "flattened_partition ex rt n = (Inr (of_nat ?OC, max_inner), rt')"
    using flattened_partition_exact [OF ms inner sum oc32] fits by simp
  show "flattened_bulk_async ex rt f n =
    (Inr (kernel_runs (direct_call (flattened_grid_executor_functor f n (of_nat ?OC, max_inner)))
          (of_nat ?OC, max_inner)) :: failure + ('u, 'v) step list set, rt')"
    using accepted
    by (simp add: flattened_bulk_async_def part bulk_async_def launch_def throw_on_error_def)
qed


text \<open>Kernels whose agents never synchronize, in general.\<close>

lemma kernel_runs_sync_free_mset:
  assumes free: "\<And>idx. Syncthreads \<notin> set (k idx)"
    and run: "run \<in> kernel_runs k shape"
  shows "mset run =
    (\<Sum>block\<leftarrow>index_range (fst shape). mset (concat (block_programs k (snd shape) block)))"
proof -
  have nosync: "\<forall>p\<in>set (block_programs k (snd shape) block). Syncthreads \<notin> set p"
    for block
    using free by (auto simp: block_programs_def)
  show ?thesis
  proof (rule concurrently_mset [where F = "\<lambda>block. block_runs (block_programs k (snd shape) block)"])
    show "run \<in> concurrently (map (\<lambda>block. block_runs (block_programs k (snd shape) block))
        (index_range (fst shape)))"
      using run by (simp add: kernel_runs_def)
  next
    fix block a
    assume "a \<in> block_runs (block_programs k (snd shape) block)"
    then show "mset a = mset (concat (block_programs k (snd shape) block))"
      by (simp add: block_runs_no_sync [OF nosync] interleavings_mset)
  qed
qed

lemma kernel_runs_sync_free_nonempty:
  assumes free: "\<And>idx. Syncthreads \<notin> set (k idx)"
  shows "kernel_runs k shape \<noteq> {}"
proof -
  have nosync: "\<forall>p\<in>set (block_programs k (snd shape) block). Syncthreads \<notin> set p"
    for block
    using free by (auto simp: block_programs_def)
  have "block_runs (block_programs k (snd shape) block) \<noteq> {}" for block
    using concat_in_interleavings [of "block_programs k (snd shape) block"]
    by (auto simp: block_runs_no_sync [OF nosync])
  then show ?thesis
    unfolding kernel_runs_def by (intro concurrently_nonempty) simp
qed

lemma sync_free_run_length:
  fixes k :: "uint2 \<Rightarrow> ('u, 'v) step list" and oc inner :: "32 word"
  assumes free: "\<And>idx. Syncthreads \<notin> set (k idx)"
    and one: "\<And>idx. length (k idx) \<le> 1"
    and run: "run \<in> kernel_runs k (oc, inner)"
  shows "length run \<le> unat oc * unat inner"
proof -
  have block: "length (concat (block_programs k inner block)) \<le> unat inner" for block
  proof -
    have "length (concat (block_programs k inner block))
        = (\<Sum>thread\<leftarrow>index_range inner. length (k (block, thread)))"
      by (simp add: block_programs_def length_concat comp_def)
    also have "\<dots> \<le> (\<Sum>thread\<leftarrow>index_range inner. 1)"
      by (intro sum_list_mono one)
    also have "\<dots> = unat inner"
      by (simp add: sum_list_triv index_range_def comp_def)
    finally show ?thesis .
  qed
  from kernel_runs_sync_free_mset [OF free run]
  have "mset run = mset (concat (map (\<lambda>block. concat (block_programs k inner block)) (index_range oc)))"
    by (simp add: mset_concat comp_def)
  then have "length run = length (concat (map (\<lambda>block. concat (block_programs k inner block)) (index_range oc)))"
    by (rule mset_eq_length)
  also have "\<dots> = (\<Sum>block\<leftarrow>index_range oc. length (concat (block_programs k inner block)))"
    by (simp add: length_concat comp_def)
  also have "\<dots> \<le> (\<Sum>block\<leftarrow>index_range oc. unat inner)"
    by (intro sum_list_mono block)
  also have "\<dots> = unat oc * unat inner"
    by (simp add: sum_list_triv index_range_def comp_def)
  finally show ?thesis .
qed

text \<open>Each agent of the flattening functor calls the recording function at most once.\<close>

lemma functor_record_once:
  "length (flattened_grid_executor_functor record_flat n partitioning idx shared_params) \<le> 1"
  by (simp add: flattened_grid_executor_functor_def record_flat_def Let_def split: option.splits)

lemma too_few_calls:
  fixes run :: "(32 word, 'v) step list"
  assumes "length run \<le> unat (1 :: 32 word) * unat (1024 :: 32 word)"
  shows "mset (used run) \<noteq> mset (map of_nat [0..<unat (2 ^ 42 + 1 :: 64 word)])"
proof
  assume "mset (used run) = mset (map of_nat [0..<unat (2 ^ 42 + 1 :: 64 word)])"
  then have "length (used run) = length (map (of_nat :: nat \<Rightarrow> 32 word) [0..<unat (2 ^ 42 + 1 :: 64 word)])"
    by (rule mset_eq_length)
  then have "length (used run) = 2 ^ 42 + 1" by simp
  moreover have "length (used run) \<le> length run" by (rule length_used_le)
  ultimately show False using assms by simp
qed
section \<open>Claims about the accelerator executor\<close>

text \<open>
  C4. In the shared-state marshaling protocol, for every inner group of size at least 1,
  the runs of the group are exactly: the construction of the inner shared object from its
  initial value, then the calls of \<open>f\<close> by all agents of the group in any interleaving
  (each with references to the shared objects), then the destruction of the object.  The
  agent that constructs and the agent that destroys is the one whose inner index is zero.
  So every run has exactly one construction, before every use, and exactly one
  destruction, after every use.  This holds with and without an outer shared object.
\<close>

theorem shared_state_protocol:
  assumes "inner \<noteq> 0"
  shows "block_runs (block_programs (function_with_shared_arguments f outer_ptr init) inner block)
       = (\<lambda>uses. [Construct block init] @ uses @ [Destroy block])
          ` interleavings (map (\<lambda>thread. map Use
               (f (block, thread) (Some (outer_object outer_ptr, inner_object block))))
               (index_range inner))
     \<and> block_runs (block_programs (function_with_inner_shared_argument f init) inner block)
       = (\<lambda>uses. [Construct block init] @ uses @ [Destroy block])
          ` interleavings (map (\<lambda>thread. map Use
               (f (block, thread) (Some (ignore_ref, inner_object block))))
               (index_range inner))
     \<and> block_runs (block_programs (function_with_shared_arguments f outer_ptr init) inner block) \<noteq> {}
     \<and> (\<forall>run\<in>block_runs (block_programs (function_with_shared_arguments f outer_ptr init) inner block).
          \<exists>uses. run = [Construct block init] @ uses @ [Destroy block]
            \<and> (\<forall>s\<in>set uses. \<exists>u. s = Use u)
            \<and> mset (used uses) = mset (concat (map (\<lambda>thread.
                 f (block, thread) (Some (outer_object outer_ptr, inner_object block)))
                 (index_range inner))))
     \<and> (\<forall>thread. (Construct block init
            \<in> set (function_with_shared_arguments f outer_ptr init (block, thread))) = (thread = 0))
     \<and> (\<forall>thread. (Destroy block
            \<in> set (function_with_shared_arguments f outer_ptr init (block, thread))) = (thread = 0))"
proof -
  let ?calls = "map (\<lambda>thread. map Use
       (f (block, thread) (Some (outer_object outer_ptr, inner_object block)))) (index_range inner)
       :: ('a, 'b) step list list"
  have both: "block_runs (block_programs (function_with_shared_arguments f outer_ptr init) inner block)
       = (\<lambda>uses. [Construct block init] @ uses @ [Destroy block]) ` interleavings ?calls"
    by (rule shared_protocol_runs [OF assms]) (simp add: function_with_shared_arguments_def)
  have inner_only: "block_runs (block_programs (function_with_inner_shared_argument f init) inner block)
       = (\<lambda>uses. [Construct block init] @ uses @ [Destroy block])
          ` interleavings (map (\<lambda>thread. map Use
               (f (block, thread) (Some (ignore_ref, inner_object block))))
               (index_range inner))"
    by (rule shared_protocol_runs [OF assms]) (simp add: function_with_inner_shared_argument_def)
  have uses: "(\<forall>s\<in>set uses. \<exists>u. s = Use u)
      \<and> mset (used uses) = mset (concat (map (\<lambda>thread.
                 f (block, thread) (Some (outer_object outer_ptr, inner_object block)))
                 (index_range inner)))"
    if "uses \<in> interleavings ?calls" for uses
  proof -
    from interleavings_mset [OF that] have m: "mset uses = mset (concat ?calls)" .
    then have "set uses = set (concat ?calls)" by (rule mset_eq_setD)
    then have "\<forall>s\<in>set uses. \<exists>u. s = Use u" by auto
    moreover have "used (concat ?calls) = concat (map (\<lambda>thread.
                 f (block, thread) (Some (outer_object outer_ptr, inner_object block)))
                 (index_range inner))"
      by (rule used_concat_map_Use)
    with mset_used [OF m] have "mset (used uses) = mset (concat (map (\<lambda>thread.
                 f (block, thread) (Some (outer_object outer_ptr, inner_object block)))
                 (index_range inner)))"
      by simp
    ultimately show ?thesis by simp
  qed
  have "interleavings ?calls \<noteq> {}"
    using concat_in_interleavings [of ?calls] by blast
  with both inner_only uses show ?thesis
    by (auto simp: function_with_shared_arguments_def)
qed

theorem shared_state_protocol_witness:
  "(2::32 word) \<noteq> 0
   \<and> block_runs (block_programs (function_with_shared_arguments record_call 0 (7::nat)) 2 0)
     = {[Construct 0 7, Use ((0, 0), Some (outer_object 0, inner_object 0)),
         Use ((0, 1), Some (outer_object 0, inner_object 0)), Destroy 0],
        [Construct 0 7, Use ((0, 1), Some (outer_object 0, inner_object 0)),
         Use ((0, 0), Some (outer_object 0, inner_object 0)), Destroy 0]}"
proof -
  have ne: "(2::32 word) \<noteq> 0" by simp
  have "(\<lambda>uses. [Construct 0 (7::nat)] @ uses @ [Destroy 0])
          ` interleavings (map (\<lambda>thread. map Use
               (record_call (0, thread) (Some (outer_object 0, inner_object 0))))
               (index_range 2))
     = {[Construct 0 7, Use ((0, 0), Some (outer_object 0, inner_object 0)),
         Use ((0, 1), Some (outer_object 0, inner_object 0)), Destroy 0],
        [Construct 0 7, Use ((0, 1), Some (outer_object 0, inner_object 0)),
         Use ((0, 0), Some (outer_object 0, inner_object 0)), Destroy 0]}"
    by code_simp
  with shared_state_protocol [OF ne, of record_call 0 "7::nat" 0] ne show ?thesis
    by simp
qed

text \<open>
  C5 (the code at the failing input). The executor of device 1 is asked for its maximal
  shape while device 0 is active, and the query of the block dimension fails: the
  exception leaves \<open>max_shape\<close> with device 1 still active.
\<close>

theorem max_shape_error_leaves_device_switched:
  "fst (max_shape (executor_on 1) failing_attribute_runtime)
     = Inl (system_error cudaErrorInvalidValue
             ''cuda::grid_executor::max_shape(): cudaDeviceGetAttribute'')
   \<and> current_device failing_attribute_runtime = 0
   \<and> current_device (snd (max_shape (executor_on 1) failing_attribute_runtime)) = 1"
  by (simp add: max_shape_def executor_on_def healthy_runtime_def failing_attribute_runtime_def
      throw_on_error_def cudaSetDevice_def)

text \<open>When \<open>max_shape\<close> returns a shape, the device that was active before is active again.\<close>

lemma max_shape_restores_on_return:
  assumes "max_shape ex rt = (Inr shape, rt')"
  shows "current_device rt' = current_device rt"
  using assms
  by (auto simp: max_shape_def throw_on_error_def cudaSetDevice_def Let_def
      split: if_splits prod.splits option.splits)

text \<open>
  C9. With both shared arguments absent, the shared-argument entry points are the
  entry points without shared arguments, applied to the same function and shape: same
  outcome, same runtime state (no object is made), and the launched kernel function only
  calls \<open>f(idx)\<close>: no barrier, no construction, no destruction.
\<close>

theorem absent_shared_arguments:
  "bulk_async_shared ex rt f shape (Ignore, Ignore) = (bulk_async ex rt (direct_call f) shape, rt)
   \<and> bulk_invoke_shared ex rt f shape (Ignore, Ignore) = (bulk_invoke ex rt (direct_call f) shape, rt)
   \<and> (\<forall>idx. used (direct_call f idx) = f idx None
          \<and> Syncthreads \<notin> set (direct_call f idx)
          \<and> (\<forall>block init. Construct block init \<notin> set (direct_call f idx))
          \<and> (\<forall>block. Destroy block \<notin> set (direct_call f idx)))"
  by (auto simp: bulk_async_shared_def bulk_invoke_shared_def direct_call_def used_map_Use)

section \<open>Claims about the flattening adapter\<close>

text \<open>
  C7 (the code at the failing input). With 1024 as both components of the maximal shape
  and the flat extent \<open>2^42 + 1\<close>, the rounded-up quotient \<open>ceil(n / inner_size)\<close> is
  \<open>2^32 + 1\<close>, far above the outer maximum.  The partitioner stores the 64-bit quotient
  in an \<open>unsigned int\<close> before it compares: the outer count is 1, the assertion holds and
  the partitioning \<open>(1, 1024)\<close> is returned.
\<close>

theorem partition_quotient_truncated:
  "max_shape (base_executor (flattened_on 0)) healthy_runtime = (Inr (1024, 1024), healthy_runtime)
   \<and> flattened_partition (flattened_on 0) healthy_runtime (2 ^ 42 + 1)
       = (Inr (1, 1024), healthy_runtime)
   \<and> ceil_div (unat (2 ^ 42 + 1 :: 64 word)) (unat (1024 :: 32 word)) = 2 ^ 32 + 1"
  by (simp add: flattened_partition_def flattened_on_def healthy_max_shape ceil_div_def)

text \<open>
  Where the quotient fits the \<open>unsigned int\<close> it is stored in, the partitioner is as
  described.  Let \<open>max_shape(f)\<close> return \<open>(max_outer, max_inner)\<close> with \<open>max_inner > 0\<close>,
  and let \<open>n + max_inner - 1 < 2^64\<close> and \<open>ceil(n / max_inner) < 2^32\<close>.  Then the
  partitioner sets the inner-group size to \<open>max_inner\<close> and the outer-group count to
  \<open>ceil(n / max_inner)\<close> when that count is at most \<open>max_outer\<close>, and fails its assertion
  otherwise; the adapter then issues one launch with that partitioning or none at all.
\<close>

lemma partition_is_ceiling:
  fixes f :: "'u flat_function"
  assumes "max_shape (base_executor ex) rt = (Inr (max_outer, max_inner), rt')"
    and "max_inner \<noteq> 0"
    and "unat n + unat max_inner - 1 < 2 ^ 64"
    and "ceil_div (unat n) (unat max_inner) < 2 ^ 32"
  shows "flattened_partition ex rt n =
       (if ceil_div (unat n) (unat max_inner) \<le> unat max_outer
        then (Inr (of_nat (ceil_div (unat n) (unat max_inner)), max_inner), rt')
        else (Inl (assertion_failure ''outer_size <= agency::detail::get<0>(max_shape)''), rt'))
     \<and> flattened_bulk_async ex rt f n =
       (if ceil_div (unat n) (unat max_inner) \<le> unat max_outer
        then (bulk_async (base_executor ex) rt'
                (direct_call (flattened_grid_executor_functor f n
                   (of_nat (ceil_div (unat n) (unat max_inner)), max_inner)))
                (of_nat (ceil_div (unat n) (unat max_inner)), max_inner)
              :: failure + ('u, 'v) step list set, rt')
        else (Inl (assertion_failure ''outer_size <= agency::detail::get<0>(max_shape)''), rt'))"
  using flattened_partition_exact [OF assms]
  by (simp add: flattened_bulk_async_def)

lemma partition_is_ceiling_small:
  "max_shape (base_executor (flattened_on 0)) healthy_runtime = (Inr (1024, 1024), healthy_runtime)
   \<and> (1024 :: 32 word) \<noteq> 0
   \<and> unat (5000 :: 64 word) + unat (1024 :: 32 word) - 1 < 2 ^ 64
   \<and> ceil_div (unat (5000 :: 64 word)) (unat (1024 :: 32 word)) = 5
   \<and> flattened_partition (flattened_on 0) healthy_runtime 5000 = (Inr (5, 1024), healthy_runtime)
   \<and> flattened_partition (flattened_on 0) healthy_runtime (2 ^ 20 + 1)
       = (Inl (assertion_failure ''outer_size <= agency::detail::get<0>(max_shape)''),
          healthy_runtime)"
proof -
  have ms: "max_shape (base_executor (flattened_on 0)) healthy_runtime
      = (Inr (1024, 1024), healthy_runtime)"
    by (simp add: flattened_on_def healthy_max_shape)
  have ne: "(1024 :: 32 word) \<noteq> 0" by simp
  have c1: "ceil_div (unat (5000 :: 64 word)) (unat (1024 :: 32 word)) = 5"
    by (simp add: ceil_div_def)
  have c2: "ceil_div (unat (2 ^ 20 + 1 :: 64 word)) (unat (1024 :: 32 word)) = 1025"
    by (simp add: ceil_div_def)
  have s1: "unat (5000 :: 64 word) + unat (1024 :: 32 word) - 1 < 2 ^ 64" by simp
  have s2: "unat (2 ^ 20 + 1 :: 64 word) + unat (1024 :: 32 word) - 1 < 2 ^ 64" by simp
  have q1: "ceil_div (unat (5000 :: 64 word)) (unat (1024 :: 32 word)) < 2 ^ 32"
    by (simp only: c1) simp
  have q2: "ceil_div (unat (2 ^ 20 + 1 :: 64 word)) (unat (1024 :: 32 word)) < 2 ^ 32"
    by (simp only: c2) simp
  have p1: "flattened_partition (flattened_on 0) healthy_runtime 5000
      = (Inr (5, 1024), healthy_runtime)"
    using partition_is_ceiling [OF ms ne s1 q1, of record_flat, THEN conjunct1]
    by (simp add: ceil_div_def)
  have p2: "flattened_partition (flattened_on 0) healthy_runtime (2 ^ 20 + 1)
       = (Inl (assertion_failure ''outer_size <= agency::detail::get<0>(max_shape)''),
          healthy_runtime)"
    using partition_is_ceiling [OF ms ne s2 q2, of record_flat, THEN conjunct1]
    by (simp add: ceil_div_def)
  from ms ne s1 c1 p1 p2 show ?thesis by blast
qed

text \<open>
  C1 (the code at the failing input). With 1024 as both components of the maximal shape
  and the flat extent \<open>2^42 + 1\<close>, the partitioner's quotient \<open>2^32 + 1\<close> is stored in an
  \<open>unsigned int\<close> as 1 and passes the assertion, so the adapter launches the shape
  \<open>(1, 1024)\<close>, through \<open>bulk_async(f, shape)\<close> as well as through
  \<open>bulk_async(f, shape, shared_arg)\<close>.  Either launch has runs, and none of them invokes
  \<open>f\<close> on all the indices below the extent.
\<close>

theorem flattening_misses_indices:
  "fst (flattened_bulk_async (flattened_on 0) healthy_runtime record_flat (2 ^ 42 + 1))
     = (Inr (kernel_runs (direct_call (flattened_grid_executor_functor record_flat (2 ^ 42 + 1)
                (1, 1024))) (1, 1024)) :: failure + (32 word, unit) step list set)
   \<and> kernel_runs (direct_call (flattened_grid_executor_functor record_flat (2 ^ 42 + 1)
          (1, 1024)) :: uint2 \<Rightarrow> (32 word, unit) step list) (1, 1024) \<noteq> {}
   \<and> \<not> (\<exists>run\<in>kernel_runs (direct_call (flattened_grid_executor_functor record_flat (2 ^ 42 + 1)
                (1, 1024)) :: uint2 \<Rightarrow> (32 word, unit) step list) (1, 1024).
          mset (used run) = mset (map of_nat [0..<unat (2 ^ 42 + 1 :: 64 word)]))
   \<and> fst (flattened_bulk_async_shared (flattened_on 0) healthy_runtime record_flat (2 ^ 42 + 1)
          (7 :: nat))
     = (Inr (kernel_runs (function_with_outer_shared_argument
                (flattened_grid_executor_functor record_flat (2 ^ 42 + 1) (1, 1024)) 0) (1, 1024))
        :: failure + (32 word, unit) step list set)
   \<and> kernel_runs (function_with_outer_shared_argument
          (flattened_grid_executor_functor record_flat (2 ^ 42 + 1) (1, 1024)) 0
          :: uint2 \<Rightarrow> (32 word, unit) step list) (1, 1024) \<noteq> {}
   \<and> \<not> (\<exists>run\<in>kernel_runs (function_with_outer_shared_argument
                (flattened_grid_executor_functor record_flat (2 ^ 42 + 1) (1, 1024)) 0
                :: uint2 \<Rightarrow> (32 word, unit) step list) (1, 1024).
          mset (used run) = mset (map of_nat [0..<unat (2 ^ 42 + 1 :: 64 word)]))"
proof -
  let ?F = "direct_call (flattened_grid_executor_functor record_flat (2 ^ 42 + 1) (1, 1024))
     :: uint2 \<Rightarrow> (32 word, unit) step list"
  let ?G = "function_with_outer_shared_argument
     (flattened_grid_executor_functor record_flat (2 ^ 42 + 1) (1, 1024)) 0
     :: uint2 \<Rightarrow> (32 word, unit) step list"
  have free: "Syncthreads \<notin> set (?F idx)" "Syncthreads \<notin> set (?G idx)" for idx
    by (auto simp: direct_call_def function_with_outer_shared_argument_def)
  have one: "length (?F idx) \<le> 1" "length (?G idx) \<le> 1" for idx
    by (simp_all add: direct_call_def function_with_outer_shared_argument_def
        functor_record_once [simplified])
  have part: "flattened_partition (flattened_on 0) healthy_runtime (2 ^ 42 + 1)
       = (Inr (1, 1024), healthy_runtime)"
    by (simp add: flattened_partition_def flattened_on_def healthy_max_shape)
  then have "fst (flattened_bulk_async (flattened_on 0) healthy_runtime record_flat (2 ^ 42 + 1))
     = (Inr (kernel_runs ?F (1, 1024)) :: failure + (32 word, unit) step list set)"
    by (simp add: flattened_bulk_async_def bulk_async_def launch_def throw_on_error_def
        healthy_runtime_def)
  moreover have "kernel_runs ?F (1, 1024) \<noteq> {}"
    by (rule kernel_runs_sync_free_nonempty [OF free(1)])
  moreover have "mset (used run) \<noteq> mset (map of_nat [0..<unat (2 ^ 42 + 1 :: 64 word)])"
    if "run \<in> kernel_runs ?F (1, 1024)" for run
    by (rule too_few_calls [OF sync_free_run_length [OF free(1) one(1) that]])
  moreover from part
  have "fst (flattened_bulk_async_shared (flattened_on 0) healthy_runtime record_flat (2 ^ 42 + 1)
          (7 :: nat))
     = (Inr (kernel_runs ?G (1, 1024)) :: failure + (32 word, unit) step list set)"
    by (simp add: flattened_bulk_async_shared_def bulk_async_shared_def make_unique_def
        bulk_async_def launch_def throw_on_error_def healthy_runtime_def)
  moreover have "kernel_runs ?G (1, 1024) \<noteq> {}"
    by (rule kernel_runs_sync_free_nonempty [OF free(2)])
  moreover have "mset (used run) \<noteq> mset (map of_nat [0..<unat (2 ^ 42 + 1 :: 64 word)])"
    if "run \<in> kernel_runs ?G (1, 1024)" for run
    by (rule too_few_calls [OF sync_free_run_length [OF free(2) one(2) that]])
  ultimately show ?thesis by blast
qed

text \<open>
  Where no arithmetic wraps, the flattening is as described.  Let \<open>max_shape(f)\<close> return
  \<open>(max_outer, max_inner)\<close> with \<open>max_inner > 0\<close>, let the runtime accept the launch,
  and let the flat extent \<open>n\<close> fit one launch, \<open>ceil(n / max_inner) \<le> max_outer\<close>, with
  all flat indices of the launch within \<open>unsigned int\<close>,
  \<open>ceil(n / max_inner) * max_inner \<le> 2^32\<close>.  Then \<open>bulk_async(f, shape)\<close> dispatches,
  each agent \<open>(outer, inner)\<close> calls \<open>f\<close> on \<open>outer * max_inner + inner\<close> exactly when
  that is below \<open>n\<close>, and in every run the calls of \<open>f\<close> are those on the indices
  \<open>0, ..., n - 1\<close>, each exactly once.
\<close>

lemma flattening_covers_exactly:
  fixes f :: "'u flat_function" and n :: "64 word"
  assumes "max_shape (base_executor ex) rt = (Inr (max_outer, max_inner), rt')"
    and "launch_status rt' (of_nat (ceil_div (unat n) (unat max_inner)), max_inner) = cudaSuccess"
    and "add_callback_status rt' = cudaSuccess"
    and "max_inner \<noteq> 0"
    and "ceil_div (unat n) (unat max_inner) \<le> unat max_outer"
    and "ceil_div (unat n) (unat max_inner) * unat max_inner \<le> 2 ^ 32"
  shows "(\<exists>runs :: ('u, 'v) step list set.
            flattened_bulk_async ex rt f n = (Inr runs, rt') \<and> runs \<noteq> {}
            \<and> (\<forall>run\<in>runs. mset (used run)
                  = mset (concat (map (\<lambda>i. f (of_nat i) None) [0..<unat n]))))
     \<and> (\<exists>runs :: (32 word, 'v) step list set.
            flattened_bulk_async ex rt record_flat n = (Inr runs, rt') \<and> runs \<noteq> {}
            \<and> (\<forall>run\<in>runs. mset (used run) = mset (map of_nat [0..<unat n])
                  \<and> distinct (used run)))
     \<and> (\<forall>i<ceil_div (unat n) (unat max_inner). \<forall>j<unat max_inner.
            flattened_grid_executor_functor f n
               (of_nat (ceil_div (unat n) (unat max_inner)), max_inner) (of_nat i, of_nat j) None
            = (if i * unat max_inner + j < unat n then f (of_nat (i * unat max_inner + j)) None
               else []))"
proof -
  let ?OC = "ceil_div (unat n) (unat max_inner)"
  let ?oc = "of_nat ?OC :: 32 word"
  note d = flattened_dispatch [OF assms]
  have range: "unat ?oc * unat max_inner \<le> 2 ^ 32" and fits: "unat n \<le> unat ?oc * unat max_inner"
    using assms(6) d(3) by (simp_all only: d(2))
  have general: "\<exists>runs :: ('w, 'v) step list set.
            flattened_bulk_async ex rt g n = (Inr runs, rt') \<and> runs \<noteq> {}
            \<and> (\<forall>run\<in>runs. mset (used run)
                  = mset (concat (map (\<lambda>i. g (of_nat i) None) [0..<unat n])))"
    for g :: "'w flat_function"
  proof (intro exI conjI ballI)
    show "flattened_bulk_async ex rt g n =
      (Inr (kernel_runs (direct_call (flattened_grid_executor_functor g n (?oc, max_inner)))
          (?oc, max_inner)) :: failure + ('w, 'v) step list set, rt')"
      by (rule flattened_dispatch(1) [OF assms])
    show "kernel_runs (direct_call (flattened_grid_executor_functor g n (?oc, max_inner))
        :: uint2 \<Rightarrow> ('w, 'v) step list) (?oc, max_inner) \<noteq> {}"
      by (rule kernel_runs_direct_nonempty)
    fix run :: "('w, 'v) step list"
    assume "run \<in> kernel_runs (direct_call (flattened_grid_executor_functor g n (?oc, max_inner)))
          (?oc, max_inner)"
    from flattened_runs_cover [OF range fits this]
    show "mset (used run) = mset (concat (map (\<lambda>i. g (of_nat i) None) [0..<unat n]))" .
  qed
  have flat: "concat (map (\<lambda>i. record_flat (of_nat i) None) [0..<unat n]) = map of_nat [0..<unat n]"
    by (induction "unat n") (simp_all add: record_flat_def)
  have "unat n \<le> 2 ^ 32" using fits range by simp
  then have dist: "distinct (map of_nat [0..<unat n] :: 32 word list)"
    by (rule distinct_flat_indices)
  have recorded: "\<exists>runs :: (32 word, 'v) step list set.
            flattened_bulk_async ex rt record_flat n = (Inr runs, rt') \<and> runs \<noteq> {}
            \<and> (\<forall>run\<in>runs. mset (used run) = mset (map of_nat [0..<unat n])
                  \<and> distinct (used run))"
  proof -
    from general [of record_flat] obtain runs :: "(32 word, 'v) step list set" where
      runs: "flattened_bulk_async ex rt record_flat n = (Inr runs, rt')" "runs \<noteq> {}"
        "\<forall>run\<in>runs. mset (used run) = mset (map of_nat [0..<unat n])"
      unfolding flat by blast
    moreover have "distinct (used run)" if "run \<in> runs" for run
      using runs(3) that dist by (metis mset_eq_imp_distinct_iff)
    ultimately show ?thesis by blast
  qed
  have agents: "flattened_grid_executor_functor f n (?oc, max_inner) (of_nat i, of_nat j) None
            = (if i * unat max_inner + j < unat n then f (of_nat (i * unat max_inner + j)) None
               else [])"
    if "i < ?OC" "j < unat max_inner" for i j
  proof -
    have "i * unat max_inner + j < Suc i * unat max_inner" using that(2) by simp
    also have "\<dots> \<le> ?OC * unat max_inner" using that(1) by (intro mult_le_mono1) simp
    finally have "i * unat max_inner + j < 2 ^ 32" using assms(6) by simp
    then show ?thesis by (rule functor_no_wrap)
  qed
  from general [of f] recorded agents show ?thesis by blast
qed

lemma flattening_covers_exactly_small:
  "max_shape (base_executor (flattened_on 0)) healthy_runtime = (Inr (1024, 1024), healthy_runtime)
   \<and> (1024 :: 32 word) \<noteq> 0
   \<and> ceil_div (unat (5000 :: 64 word)) (unat (1024 :: 32 word)) = 5
   \<and> launch_status healthy_runtime (5, 1024) = cudaSuccess
   \<and> add_callback_status healthy_runtime = cudaSuccess
   \<and> (\<exists>runs :: (32 word, unit) step list set.
         flattened_bulk_async (flattened_on 0) healthy_runtime record_flat 5000
           = (Inr runs, healthy_runtime)
         \<and> (\<exists>run. run \<in> runs \<and> mset (used run) = mset (map of_nat [0..<5000])
               \<and> distinct (used run)))"
proof -
  have ms: "max_shape (base_executor (flattened_on 0)) healthy_runtime
      = (Inr (1024, 1024), healthy_runtime)"
    by (simp add: flattened_on_def healthy_max_shape)
  have ne: "(1024 :: 32 word) \<noteq> 0" by simp
  have c: "ceil_div (unat (5000 :: 64 word)) (unat (1024 :: 32 word)) = 5"
    by (simp add: ceil_div_def)
  have l: "launch_status healthy_runtime
      (of_nat (ceil_div (unat (5000 :: 64 word)) (unat (1024 :: 32 word))), 1024) = cudaSuccess"
    by (simp add: healthy_runtime_def)
  have a: "add_callback_status healthy_runtime = cudaSuccess"
    by (simp add: healthy_runtime_def)
  have fits: "ceil_div (unat (5000 :: 64 word)) (unat (1024 :: 32 word)) \<le> unat (1024 :: 32 word)"
    by (simp only: c) simp
  have range: "ceil_div (unat (5000 :: 64 word)) (unat (1024 :: 32 word)) * unat (1024 :: 32 word)
      \<le> 2 ^ 32"
    by (simp only: c) simp
  from flattening_covers_exactly [OF ms l a ne fits range, of record_flat, where ?'v = unit]
  obtain runs :: "(32 word, unit) step list set" where
    "flattened_bulk_async (flattened_on 0) healthy_runtime record_flat 5000
           = (Inr runs, healthy_runtime)" "runs \<noteq> {}"
    "\<forall>run\<in>runs. mset (used run) = mset (map of_nat [0..<unat (5000 :: 64 word)])
        \<and> distinct (used run)"
    by blast
  then have "\<exists>runs :: (32 word, unit) step list set.
         flattened_bulk_async (flattened_on 0) healthy_runtime record_flat 5000
           = (Inr runs, healthy_runtime)
         \<and> (\<exists>run. run \<in> runs \<and> mset (used run) = mset (map of_nat [0..<5000])
               \<and> distinct (used run))"
    by fastforce
  moreover have "launch_status healthy_runtime (5, 1024) = cudaSuccess"
    by (simp add: healthy_runtime_def)
  ultimately show ?thesis using ms ne c a by blast
qed

section \<open>The copy algorithm\<close>

lemma copy_sequenced_returns:
  assumes "first \<le> lst"
  shows "\<exists>mem'. copy_sequenced first lst result mem = Some (mem', result + (lst - first))"
  using assms
proof (induction "nat (lst - first)" arbitrary: first result mem)
  case 0
  then have "first = lst" by simp
  then show ?case
    by (subst copy_sequenced.simps) simp
next
  case (Suc d)
  then have step: "d = nat (lst - (first + 1))" "first + 1 \<le> lst" "first \<noteq> lst"
    by simp_all
  from Suc.hyps(1) [OF step(1) step(2), of "result + 1" "mem(result := mem first)"]
  obtain mem' where "copy_sequenced (first + 1) lst (result + 1) (mem(result := mem first))
      = Some (mem', result + 1 + (lst - (first + 1)))"
    by blast
  with step(3) show ?case
    by (subst copy_sequenced.simps) simp
qed

lemma copy_sequenced_cells:
  assumes "first \<le> lst" "result + (lst - first) \<le> first \<or> lst \<le> result"
    and "copy_sequenced first lst result mem = Some (mem', it)"
  shows "\<forall>a. mem' a = (if result \<le> a \<and> a < result + (lst - first) then mem (first + (a - result))
                       else mem a)"
  using assms
proof (induction "nat (lst - first)" arbitrary: first result mem)
  case 0
  then have "first = lst" by simp
  with "0.prems"(3) show ?case
    by (subst (asm) copy_sequenced.simps) auto
next
  case (Suc d)
  then have step: "d = nat (lst - (first + 1))" "first + 1 \<le> lst" "first \<noteq> lst"
    "result + 1 + (lst - (first + 1)) \<le> first + 1 \<or> lst \<le> result + 1"
    by auto
  from Suc.prems(3) step(3)
  have "copy_sequenced (first + 1) lst (result + 1) (mem(result := mem first)) = Some (mem', it)"
    by (subst (asm) copy_sequenced.simps) simp
  from Suc.hyps(1) [OF step(1) step(2) step(4) this]
  have "\<forall>a. mem' a = (if result + 1 \<le> a \<and> a < result + 1 + (lst - (first + 1))
      then (mem(result := mem first)) (first + 1 + (a - (result + 1)))
      else (mem(result := mem first)) a)" .
  then show ?case
    using Suc.prems(1,2) step(3) by (auto simp: fun_upd_def)
qed

text \<open>
  The random-access overload copies the cells of a range that does not overlap the output,
  and returns \<open>last + n\<close>: the end of the output range only when the output starts at
  \<open>last\<close>.
\<close>

lemma copy_random_access_returns:
  "snd (copy_random_access policy first lst result mem) = lst + (lst - first)"
  "snd (copy_random_access policy first lst result mem) = result + (lst - first) \<longleftrightarrow> result = lst"
  by (auto simp: copy_random_access_def Let_def)

text \<open>
  C10 (the code at the failing input). A parallel policy and random-access iterators:
  the input range is \<open>[0, 2)\<close>, the output starts at position 10.  The two cells are
  copied, but the returned iterator is \<open>last + n = 4\<close>; the output range ends at
  \<open>result + n = 12\<close>, which is what the sequenced overload returns on the same input.
\<close>

theorem copy_returns_input_position:
  "map_option snd (copy parallel_execution_policy True True 0 2 10 numbered_memory) = Some 4
   \<and> map_option (\<lambda>r. (fst r 10, fst r 11))
        (copy parallel_execution_policy True True 0 2 10 numbered_memory) = Some (100, 101)
   \<and> map_option snd (copy sequenced_execution_policy True True 0 2 10 numbered_memory) = Some 12
   \<and> map_option (\<lambda>r. (fst r 10, fst r 11))
        (copy sequenced_execution_policy True True 0 2 10 numbered_memory) = Some (100, 101)"
proof -
  have u: "[0..<2] = [0, 1]" by code_simp
  have par: "copy parallel_execution_policy True True 0 2 10 numbered_memory
      = Some (numbered_memory(10 := 100, 11 := 101), 4)"
    by (simp add: copy_def policy_is_sequenced_def copy_random_access_def bulk_invoke_policy_def
        copy_functor_def numbered_memory_def u)
  have seq: "copy_sequenced 0 2 10 numbered_memory
      = Some (numbered_memory(10 := 100, 11 := 101), 12)"
    by (subst copy_sequenced.simps, simp add: numbered_memory_def)+
  show ?thesis
    by (simp add: par) (simp add: copy_def policy_is_sequenced_def seq)
qed

end
